theory Spec2Isabelle
  imports Complex_Main "HOL-Library.Log_Nat"
begin

section \<open>Python values used by the generator\<close>

subsection \<open>Floats: IEEE binary64, round to nearest, ties to even\<close>

text \<open>
  A finite Python float is represented by the rational number it denotes. Every float
  operation is the exact operation followed by rounding to the nearest binary64 value
  (53 significant bits, smallest exponent -1022 so that subnormals are covered).
  Overflow to infinity is not represented: every float the script computes is far
  below \<open>2 ^ 1024\<close>.
\<close>

type_synonym pyfloat = rat

definition rne :: "rat \<Rightarrow> int" where
  "rne x = (let f = \<lfloor>x\<rfloor>; r = x - of_int f
            in if r < 1/2 then f else if 1/2 < r then f + 1
               else if even f then f else f + 1)"

definition expo :: "rat \<Rightarrow> int" where
  "expo x = (let (p, q) = quotient_of \<bar>x\<bar>; d = bitlen p - bitlen q
             in if 2 powi d \<le> \<bar>x\<bar> then d else d - 1)"

definition ulp :: "rat \<Rightarrow> rat" where
  "ulp x = 2 powi (max (expo x) (- 1022) - 52)"

definition fl :: "rat \<Rightarrow> pyfloat" where
  "fl x = (if x = 0 then 0 else of_int (rne (x / ulp x)) * ulp x)"

definition fadd :: "pyfloat \<Rightarrow> pyfloat \<Rightarrow> pyfloat" where
  "fadd x y = fl (x + y)"

definition fsub :: "pyfloat \<Rightarrow> pyfloat \<Rightarrow> pyfloat" where
  "fsub x y = fl (x - y)"

definition fmul :: "pyfloat \<Rightarrow> pyfloat \<Rightarrow> pyfloat" where
  "fmul x y = fl (x * y)"

text \<open>
  \<open>round(x, 2)\<close> on a float: the exact value is rounded to two decimals (ties to even)
  and the decimal result is converted back to the nearest float.
\<close>

definition round2 :: "pyfloat \<Rightarrow> pyfloat" where
  "round2 x = fl (of_int (rne (x * 100)) / 100)"

text \<open>\<open>int(x)\<close> truncates towards zero.\<close>

definition py_int :: "pyfloat \<Rightarrow> int" where
  "py_int x = (if 0 \<le> x then \<lfloor>x\<rfloor> else \<lceil>x\<rceil>)"

subsection \<open>Exceptions\<close>

datatype error = IndexError | ValueError | OperationalError | IntegrityError

definition and_then :: "error + 'a \<Rightarrow> ('a \<Rightarrow> error + 'b) \<Rightarrow> error + 'b" where
  "and_then m f = (case m of Inl e \<Rightarrow> Inl e | Inr x \<Rightarrow> f x)"

subsection \<open>The two seeded random sources\<close>

text \<open>
  The script draws from two generators: the hidden instance of the \<open>random\<close> module and
  the generator shared by Faker providers. Both are library code. Each is an explicit
  stream of outcomes: position 0 is the next draw, and a draw shifts the stream.
  \<open>rnd\<close> delivers raw natural numbers, from which the functions of the \<open>random\<close>
  module compute their results; \<open>fk\<close> delivers the texts Faker providers return.
\<close>

record world =
  rnd :: "nat \<Rightarrow> nat"
  fk :: "nat \<Rightarrow> string"

definition next_raw :: "world \<Rightarrow> nat \<times> world" where
  "next_raw w = (rnd w 0, w\<lparr>rnd := \<lambda>i. rnd w (Suc i)\<rparr>)"

definition next_fake :: "world \<Rightarrow> string \<times> world" where
  "next_fake w = (fk w 0, w\<lparr>fk := \<lambda>i. fk w (Suc i)\<rparr>)"

text \<open>\<open>random.random()\<close>: a float \<open>k / 2^53\<close> with \<open>0 \<le> k < 2^53\<close>.\<close>

definition random_random :: "world \<Rightarrow> pyfloat \<times> world" where
  "random_random w = (let (r, w') = next_raw w in (of_nat (r mod 2 ^ 53) / 2 ^ 53, w'))"

text \<open>\<open>_randbelow(n)\<close> for \<open>n > 0\<close>: an integer in \<open>[0, n)\<close>.\<close>

definition randbelow :: "nat \<Rightarrow> world \<Rightarrow> nat \<times> world" where
  "randbelow n w = (let (r, w') = next_raw w in (r mod n, w'))"

text \<open>\<open>random.randint(a, b)\<close>: ValueError on an empty range.\<close>

definition randint :: "int \<Rightarrow> int \<Rightarrow> world \<Rightarrow> error + (int \<times> world)" where
  "randint a b w =
     (if b < a then Inl ValueError
      else let (k, w') = randbelow (nat (b - a + 1)) w in Inr (a + int k, w'))"

text \<open>\<open>random.choice(seq)\<close>: IndexError on an empty sequence.\<close>

definition choice :: "'a list \<Rightarrow> world \<Rightarrow> error + ('a \<times> world)" where
  "choice xs w =
     (if xs = [] then Inl IndexError
      else let (k, w') = randbelow (length xs) w in Inr (xs ! k, w'))"

text \<open>\<open>random.uniform(a, b)\<close> is \<open>a + (b - a) * random()\<close>.\<close>

definition uniform :: "pyfloat \<Rightarrow> pyfloat \<Rightarrow> world \<Rightarrow> pyfloat \<times> world" where
  "uniform a b w = (let (r, w') = random_random w in (fadd a (fmul (fsub b a) r), w'))"

text \<open>
  \<open>random.choices(population, weights)[0]\<close>: the weights are accumulated with float
  addition, \<open>random() * total\<close> is located in the cumulative weights by
  \<open>bisect(cum_weights, x, 0, n - 1)\<close>.
\<close>

fun accumulate :: "pyfloat \<Rightarrow> pyfloat list \<Rightarrow> pyfloat list" where
  "accumulate acc [] = []"
| "accumulate acc (x # xs) = fadd acc x # accumulate (fadd acc x) xs"

definition cum_weights :: "pyfloat list \<Rightarrow> pyfloat list" where
  "cum_weights ws = (case ws of [] \<Rightarrow> [] | x # xs \<Rightarrow> x # accumulate x xs)"

function bisect :: "pyfloat list \<Rightarrow> pyfloat \<Rightarrow> nat \<Rightarrow> nat \<Rightarrow> nat" where
  "bisect a x lo hi =
     (if lo < hi
      then let mid = (lo + hi) div 2
           in if x < a ! mid then bisect a x lo mid else bisect a x (mid + 1) hi
      else lo)"
  by pat_completeness auto
termination
  by (relation "measure (\<lambda>(a, x, lo, hi). hi - lo)") auto

declare bisect.simps [simp del]

definition choices :: "'a list \<Rightarrow> pyfloat list \<Rightarrow> world \<Rightarrow> error + ('a \<times> world)" where
  "choices population weights w =
     (let n = length population; cw = cum_weights weights
      in if length cw \<noteq> n then Inl ValueError
         else if cw = [] then Inl IndexError
         else let total = fadd (last cw) 0
              in if total \<le> 0 then Inl ValueError
                 else let (r, w') = random_random w
                      in Inr (population ! bisect cw (fmul r total) 0 (n - 1), w'))"

text \<open>
  \<open>random.sample(population, k)\<close>: ValueError when \<open>k\<close> exceeds the population;
  otherwise \<open>k\<close> elements at distinct positions, drawn without replacement. This is the
  contract of the library function, not its algorithm: here every draw selects among the
  positions not yet taken, whereas CPython, for a population of 1000, draws among all
  positions and draws again when a position repeats. The two select from the same
  \<open>k\<close>-element arrangements but turn a given stream of raw draws into different ones.
\<close>

fun sample_pool :: "'a list \<Rightarrow> nat \<Rightarrow> world \<Rightarrow> 'a list \<times> world" where
  "sample_pool pool 0 w = ([], w)"
| "sample_pool pool (Suc k) w =
     (let (j, w1) = randbelow (length pool) w;
          (rest, w2) = sample_pool (take j pool @ drop (Suc j) pool) k w1
      in (pool ! j # rest, w2))"

definition sample :: "'a list \<Rightarrow> int \<Rightarrow> world \<Rightarrow> error + ('a list \<times> world)" where
  "sample population k w =
     (if k < 0 \<or> int (length population) < k then Inl ValueError
      else Inr (sample_pool population (nat k) w))"

text \<open>Faker providers: each call returns the next text of the Faker stream.\<close>

definition fake_word :: "world \<Rightarrow> string \<times> world" where
  "fake_word = next_fake"

definition fake_name :: "world \<Rightarrow> string \<times> world" where
  "fake_name = next_fake"

definition fake_email :: "world \<Rightarrow> string \<times> world" where
  "fake_email = next_fake"

definition fake_phone_number :: "world \<Rightarrow> string \<times> world" where
  "fake_phone_number = next_fake"

definition fake_address :: "world \<Rightarrow> string \<times> world" where
  "fake_address = next_fake"

definition fake_bothify :: "string \<Rightarrow> world \<Rightarrow> string \<times> world" where
  "fake_bothify text = next_fake"

subsection \<open>Dates\<close>

text \<open>
  A date is represented by its proleptic Gregorian ordinal (\<open>date.toordinal()\<close>), on which
  \<open>timedelta(days=k)\<close> is integer addition. The ISO text that the script passes around and
  stores is \<open>isoformat()\<close> of that date, and \<open>fromisoformat\<close> reads the same date back,
  so a date column of the model holds the ordinal where the script holds the text.
\<close>

type_synonym date = int

definition days_before_year :: "int \<Rightarrow> int" where
  "days_before_year year =
     (let y = year - 1 in y * 365 + y div 4 - y div 100 + y div 400)"

definition is_leap :: "int \<Rightarrow> bool" where
  "is_leap year = (year mod 4 = 0 \<and> (year mod 100 \<noteq> 0 \<or> year mod 400 = 0))"

definition days_before_month :: "int \<Rightarrow> nat \<Rightarrow> int" where
  "days_before_month year month =
     [0, 0, 31, 59, 90, 120, 151, 181, 212, 243, 273, 304, 334] ! month
       + (if 2 < month \<and> is_leap year then 1 else 0)"

definition ymd2ord :: "int \<Rightarrow> nat \<Rightarrow> int \<Rightarrow> date" where
  "ymd2ord year month day = days_before_year year + days_before_month year month + day"

definition rand_date :: "int \<Rightarrow> int \<Rightarrow> world \<Rightarrow> error + (date \<times> world)" where
  "rand_date start_year end_year w =
     (let start = ymd2ord start_year 1 1;
          end = ymd2ord end_year 12 31;
          delta = end - start
      in and_then (randint 0 delta w) (\<lambda>(k, w). Inr (start + k, w)))"

definition rand_order_date :: "world \<Rightarrow> error + (date \<times> world)" where
  "rand_order_date = rand_date 2021 2024"

definition rand_shipment_date :: "date option \<Rightarrow> world \<Rightarrow> error + (date option \<times> world)" where
  "rand_shipment_date order_date_iso w =
     (case order_date_iso of
        None \<Rightarrow> Inr (None, w)
      | Some od \<Rightarrow>
          and_then (randint 0 10 w) (\<lambda>(a, w).
          and_then (randint 11 20 w) (\<lambda>(b, w).
          and_then (choices [Some a, Some b, None] [fl (8/10), fl (15/100), fl (5/100)] w)
            (\<lambda>(add, w).
               case add of None \<Rightarrow> Inr (None, w) | Some k \<Rightarrow> Inr (Some (od + k), w)))))"

section \<open>Rows and generation parameters\<close>

record category_row =
  category_id :: int
  category_name :: string

record product_row =
  product_id :: int
  product_name :: string
  p_category_id :: int
  price :: pyfloat
  stock :: int

record customer_row =
  customer_id :: int
  customer_name :: string
  gender :: string
  date_of_birth :: date
  email :: "string option"
  phone_number :: "string option"
  address :: "string option"
  customer_tier :: string
  registration_date :: date
  total_spent :: pyfloat

record order_row =
  order_id :: int
  o_customer_id :: int
  order_date :: date
  order_total :: pyfloat
  promo_code :: "string option"

record order_item_row =
  i_order_id :: int
  item_no :: int
  i_product_id :: int
  quantity :: int
  unit_price :: pyfloat
  line_total :: pyfloat

record shipment_row =
  shipment_id :: "int option"
  s_order_id :: int
  shipped_date :: "date option"
  delivery_date :: "date option"
  carrier :: string
  tracking_number :: string

definition Faker_seed :: int where "Faker_seed = 100"

definition NUM_CUSTOMERS :: int where "NUM_CUSTOMERS = 1000"
definition NUM_CATEGORIES :: int where "NUM_CATEGORIES = 12"
definition NUM_PRODUCTS :: int where "NUM_PRODUCTS = 300"
definition NUM_ORDERS :: nat where "NUM_ORDERS = 1400"

definition PRICE_MIN :: pyfloat where "PRICE_MIN = 5"
definition PRICE_MAX :: pyfloat where "PRICE_MAX = 1000"

definition TIERS :: "string list" where
  "TIERS = [''Bronze'', ''Silver'', ''Gold'', ''Platinum'']"

definition GENDERS :: "string list" where
  "GENDERS = [''Male'', ''Female'', ''Non-binary'', ''Prefer not to say'']"

definition categories :: "string list" where
  "categories = [''Electronics'', ''Clothing'', ''Home & Kitchen'', ''Books'', ''Toys'',
     ''Sports'', ''Beauty'', ''Groceries'', ''Automotive'', ''Office'', ''Garden'', ''Health'']"

definition category_rows :: "category_row list" where
  "category_rows =
     map (\<lambda>i. \<lparr>category_id = int i + 1, category_name = categories ! i\<rparr>)
       [0 ..< length categories]"

section \<open>Generation\<close>

subsection \<open>Text helpers\<close>

definition upper_char :: "char \<Rightarrow> char" where
  "upper_char c =
     (if 97 \<le> (of_char c :: nat) \<and> (of_char c :: nat) \<le> 122
      then char_of ((of_char c :: nat) - 32) else c)"

definition lower_char :: "char \<Rightarrow> char" where
  "lower_char c =
     (if 65 \<le> (of_char c :: nat) \<and> (of_char c :: nat) \<le> 90
      then char_of ((of_char c :: nat) + 32) else c)"

definition capitalize :: "string \<Rightarrow> string" where
  "capitalize s = (case s of [] \<Rightarrow> [] | c # cs \<Rightarrow> upper_char c # map lower_char cs)"

fun str_nat :: "nat \<Rightarrow> string" where
  "str_nat n =
     (if n < 10 then [char_of (48 + n)] else str_nat (n div 10) @ [char_of (48 + n mod 10)])"

definition str_int :: "int \<Rightarrow> string" where
  "str_int i = (if i < 0 then CHR ''-'' # str_nat (nat (- i)) else str_nat (nat i))"

text \<open>\<open>s.replace("\n", ", ")\<close>\<close>

definition replace_newline :: "string \<Rightarrow> string" where
  "replace_newline s = concat (map (\<lambda>c. if c = CHR 0x0A then '', '' else [c]) s)"

subsection \<open>Products\<close>

definition gen_product :: "int \<Rightarrow> world \<Rightarrow> error + (product_row \<times> world)" where
  "gen_product pid w =
     and_then (randint 1 NUM_CATEGORIES w) (\<lambda>(cat_id, w).
     let (word, w) = fake_word w in
     and_then (choice [''Pro'', ''X'', ''Plus'', ''Mini'', ''Max'', ''Series''] w) (\<lambda>(tag, w).
     and_then (randint 100 999 w) (\<lambda>(num, w).
     let pname = capitalize word @ '' '' @ tag @ '' '' @ str_int num;
         (u, w) = uniform PRICE_MIN PRICE_MAX w;
         price = round2 u
     in and_then (randint 0 500 w) (\<lambda>(stock, w).
        Inr (\<lparr>product_id = pid, product_name = pname, p_category_id = cat_id,
               price = price, stock = stock\<rparr>, w)))))"

fun gen_products :: "int list \<Rightarrow> world \<Rightarrow> error + (product_row list \<times> world)" where
  "gen_products [] w = Inr ([], w)"
| "gen_products (pid # pids) w =
     and_then (gen_product pid w) (\<lambda>(p, w).
     and_then (gen_products pids w) (\<lambda>(ps, w). Inr (p # ps, w)))"

subsection \<open>Customers\<close>

definition gen_customer :: "date \<Rightarrow> int \<Rightarrow> world \<Rightarrow> error + (customer_row \<times> world)" where
  "gen_customer today cid w =
     (let (name, w) = fake_name w in
      and_then (choice GENDERS w) (\<lambda>(gender, w).
      and_then (randint (18 * 365) (70 * 365) w) (\<lambda>(days, w).
      let dob = today - days;
          (email, w) = fake_email w;
          (phone, w) = fake_phone_number w;
          (addr, w) = fake_address w;
          address = replace_newline addr
      in and_then (choices TIERS [fl (5/10), fl (3/10), fl (15/100), fl (5/100)] w) (\<lambda>(tier, w).
         and_then (rand_date 2018 2024 w) (\<lambda>(reg_date, w).
         Inr (\<lparr>customer_id = cid, customer_name = name, gender = gender,
                date_of_birth = dob, email = Some email, phone_number = Some phone,
                address = Some address, customer_tier = tier,
                registration_date = reg_date, total_spent = 0\<rparr>, w))))))"

fun gen_customers :: "date \<Rightarrow> int list \<Rightarrow> world \<Rightarrow> error + (customer_row list \<times> world)" where
  "gen_customers today [] w = Inr ([], w)"
| "gen_customers today (cid # cids) w =
     and_then (gen_customer today cid w) (\<lambda>(c, w).
     and_then (gen_customers today cids w) (\<lambda>(cs, w). Inr (c # cs, w)))"

text \<open>
  \<open>customers[idx][col] = None\<close>. The column index is drawn from \<open>[4, 5, 6]\<close> (email,
  phone, address); the model has no result for another index, which never occurs.
\<close>

definition set_none :: "int \<Rightarrow> customer_row \<Rightarrow> error + customer_row" where
  "set_none col c =
     (if col = 4 then Inr (c\<lparr>email := None\<rparr>)
      else if col = 5 then Inr (c\<lparr>phone_number := None\<rparr>)
      else if col = 6 then Inr (c\<lparr>address := None\<rparr>)
      else Inl IndexError)"

fun missing_loop ::
  "nat list \<Rightarrow> customer_row list \<Rightarrow> world \<Rightarrow> error + (customer_row list \<times> world)" where
  "missing_loop [] customers w = Inr (customers, w)"
| "missing_loop (idx # idxs) customers w =
     and_then (choice [4, 5, 6] w) (\<lambda>(col, w).
     if length customers \<le> idx then Inl IndexError
     else and_then (set_none col (customers ! idx)) (\<lambda>c.
          missing_loop idxs (customers[idx := c]) w))"

text \<open>
  The source row \<open>src\<close> is a reference into \<open>customers\<close>; its name is read before the
  target's name is written and its email is not touched by that write, so the model
  reads both from the list as it is when \<open>src\<close> is chosen.
\<close>

fun dup_loop ::
  "nat list \<Rightarrow> customer_row list \<Rightarrow> world \<Rightarrow> error + (customer_row list \<times> world)" where
  "dup_loop [] customers w = Inr (customers, w)"
| "dup_loop (idx # idxs) customers w =
     and_then (choice customers w) (\<lambda>(src, w).
     if length customers \<le> idx then Inl IndexError
     else let customers = customers[idx := (customers ! idx)\<lparr>customer_name := customer_name src\<rparr>];
              (r, w) = random_random w
          in if r < fl (1/2)
             then dup_loop idxs (customers[idx := (customers ! idx)\<lparr>email := email src\<rparr>]) w
             else dup_loop idxs customers w)"

definition num_missing :: "customer_row list \<Rightarrow> int" where
  "num_missing customers = py_int (fmul (fl (2/100)) (of_nat (length customers)))"

definition num_dup :: "customer_row list \<Rightarrow> int" where
  "num_dup customers = py_int (fmul (fl (1/100)) (of_nat (length customers)))"

definition add_missing :: "customer_row list \<Rightarrow> world \<Rightarrow> error + (customer_row list \<times> world)" where
  "add_missing customers w =
     and_then (sample [0 ..< length customers] (num_missing customers) w) (\<lambda>(idxs, w).
     missing_loop idxs customers w)"

definition add_duplicates :: "customer_row list \<Rightarrow> world \<Rightarrow> error + (customer_row list \<times> world)" where
  "add_duplicates customers w =
     and_then (sample [0 ..< length customers] (num_dup customers) w) (\<lambda>(dup_indices, w).
     dup_loop dup_indices customers w)"

subsection \<open>Orders, order items and shipments\<close>

record gen_state =
  orders :: "order_row list"
  order_items :: "order_item_row list"
  shipments :: "shipment_row list"
  order_id_seq :: int

definition promo_pool :: "string option list" where
  "promo_pool = [None, Some ''NEW10'', Some ''FREESHIP'', Some ''SUMMER20'', None, None]"

definition discount_pool :: "pyfloat list" where
  "discount_pool = [0, 0, fl (5/100), fl (1/10)]"

definition carrier_pool :: "string list" where
  "carrier_pool = [''DHL'', ''FedEx'', ''UPS'', ''Local'']"

fun item_loop ::
  "nat \<Rightarrow> product_row list \<Rightarrow> int \<Rightarrow> int \<Rightarrow> pyfloat \<Rightarrow> world
     \<Rightarrow> error + ((order_item_row list \<times> pyfloat) \<times> world)" where
  "item_loop 0 products oid ino tot w = Inr (([], tot), w)"
| "item_loop (Suc n) products oid ino tot w =
     and_then (choice products w) (\<lambda>(prod, w).
     let pid = product_id prod;
         unit_price = price prod
     in and_then (randint 1 5 w) (\<lambda>(qty, w).
        and_then (choice discount_pool w) (\<lambda>(disc, w).
        let line_total = round2 (fmul (fmul unit_price (of_int qty)) (fsub 1 disc))
        in and_then (item_loop n products oid (ino + 1) (fadd tot line_total) w)
             (\<lambda>((items, tot), w).
                Inr ((\<lparr>i_order_id = oid, item_no = ino, i_product_id = pid, quantity = qty,
                        unit_price = unit_price, line_total = line_total\<rparr> # items, tot),
                     w)))))"

text \<open>
  The shipment block is written twice in the script, once in the base loop and once in
  the near-duplicate loop, with the same text; it is one function here.
\<close>

definition gen_shipment :: "int \<Rightarrow> date \<Rightarrow> world \<Rightarrow> error + (shipment_row list \<times> world)" where
  "gen_shipment oid odate w =
     (let (r, w) = random_random w
      in if r < fl (8/10)
         then and_then (rand_shipment_date (Some odate) w) (\<lambda>(shipped, w).
              and_then (if shipped \<noteq> None then rand_shipment_date shipped w
                        else Inr (None, w)) (\<lambda>(delivered, w).
              and_then (choice carrier_pool w) (\<lambda>(carr, w).
              let (track, w) = fake_bothify ''TRACK-#####'' w
              in Inr ([\<lparr>shipment_id = None, s_order_id = oid, shipped_date = shipped,
                        delivery_date = delivered, carrier = carr,
                        tracking_number = track\<rparr>], w))))
         else Inr ([], w))"

definition gen_order :: "product_row list \<Rightarrow> gen_state \<Rightarrow> world \<Rightarrow> error + (gen_state \<times> world)" where
  "gen_order products st w =
     and_then (randint 1 NUM_CUSTOMERS w) (\<lambda>(cust, w).
     and_then (rand_order_date w) (\<lambda>(odate, w).
     and_then (choice promo_pool w) (\<lambda>(promo, w).
     and_then (choices [1, 2, 3, 4] [fl (6/10), fl (25/100), fl (1/10), fl (5/100)] w)
       (\<lambda>(n_items, w).
     and_then (item_loop n_items products (order_id_seq st) 1 0 w) (\<lambda>((items, tot), w).
     let ototal = round2 tot
     in and_then (gen_shipment (order_id_seq st) odate w) (\<lambda>(ships, w).
        Inr (\<lparr>orders = orders st @ [\<lparr>order_id = order_id_seq st, o_customer_id = cust,
                                      order_date = odate, order_total = ototal,
                                      promo_code = promo\<rparr>],
               order_items = order_items st @ items,
               shipments = shipments st @ ships,
               order_id_seq = order_id_seq st + 1\<rparr>, w)))))))"

fun order_loop ::
  "nat \<Rightarrow> product_row list \<Rightarrow> gen_state \<Rightarrow> world \<Rightarrow> error + (gen_state \<times> world)" where
  "order_loop 0 products st w = Inr (st, w)"
| "order_loop (Suc n) products st w =
     and_then (gen_order products st w) (\<lambda>(st, w). order_loop n products st w)"

definition dup_order :: "product_row list \<Rightarrow> gen_state \<Rightarrow> world \<Rightarrow> error + (gen_state \<times> world)" where
  "dup_order products st w =
     and_then (choice (orders st) w) (\<lambda>(row, w).
     let cust = o_customer_id row;
         odate = order_date row;
         promo = promo_code row
     in and_then (choice products w) (\<lambda>(prod, w).
        let unit_price = price prod;
            qty = 1;
            line_total = round2 (fmul unit_price (of_int qty))
        in and_then (gen_shipment (order_id_seq st) odate w) (\<lambda>(ships, w).
           Inr (\<lparr>orders = orders st @ [\<lparr>order_id = order_id_seq st, o_customer_id = cust,
                                         order_date = odate, order_total = line_total,
                                         promo_code = promo\<rparr>],
                  order_items = order_items st @
                    [\<lparr>i_order_id = order_id_seq st, item_no = 1, i_product_id = product_id prod,
                      quantity = qty, unit_price = unit_price, line_total = line_total\<rparr>],
                  shipments = shipments st @ ships,
                  order_id_seq = order_id_seq st + 1\<rparr>, w))))"

fun dup_order_loop ::
  "nat \<Rightarrow> product_row list \<Rightarrow> gen_state \<Rightarrow> world \<Rightarrow> error + (gen_state \<times> world)" where
  "dup_order_loop 0 products st w = Inr (st, w)"
| "dup_order_loop (Suc n) products st w =
     and_then (dup_order products st w) (\<lambda>(st, w). dup_order_loop n products st w)"

definition num_order_dupes :: "order_row list \<Rightarrow> int" where
  "num_order_dupes os = max 1 (py_int (fmul (fl (1/100)) (of_nat (length os))))"

definition init_state :: gen_state where
  "init_state = \<lparr>orders = [], order_items = [], shipments = [], order_id_seq = 1\<rparr>"

definition gen_orders :: "product_row list \<Rightarrow> world \<Rightarrow> error + (gen_state \<times> world)" where
  "gen_orders products w =
     and_then (order_loop NUM_ORDERS products init_state w) (\<lambda>(st, w).
     dup_order_loop (nat (num_order_dupes (orders st))) products st w)"

section \<open>The database\<close>

text \<open>
  The tables of the schema, each a list of rows in insertion order. An insertion checks
  what the schema declares for its table: the primary key, the CHECK constraints and,
  foreign keys being switched on, that every referenced row exists. NOT NULL columns
  are those whose type has no null here. A violated constraint raises IntegrityError,
  which ends the run.
\<close>

record database =
  Categories :: "category_row list"
  Products :: "product_row list"
  Customers :: "customer_row list"
  Orders :: "order_row list"
  Order_Items :: "order_item_row list"
  Shipments :: "shipment_row list"

definition empty_db :: database where
  "empty_db = \<lparr>Categories = [], Products = [], Customers = [], Orders = [],
               Order_Items = [], Shipments = []\<rparr>"

text \<open>
  \<open>connect\<close> opens the file or creates it; \<open>None\<close> is a file without tables. CREATE TABLE
  fails when the table is already there.
\<close>

definition create_schema :: "database option \<Rightarrow> error + database" where
  "create_schema file = (case file of None \<Rightarrow> Inr empty_db | Some db \<Rightarrow> Inl OperationalError)"

definition insert_category :: "category_row \<Rightarrow> database \<Rightarrow> error + database" where
  "insert_category r db =
     (if category_id r \<in> set (map category_id (Categories db)) then Inl IntegrityError
      else Inr (db\<lparr>Categories := Categories db @ [r]\<rparr>))"

definition insert_product :: "product_row \<Rightarrow> database \<Rightarrow> error + database" where
  "insert_product r db =
     (if product_id r \<in> set (map product_id (Products db)) then Inl IntegrityError
      else if price r < 0 \<or> stock r < 0 then Inl IntegrityError
      else if p_category_id r \<notin> set (map category_id (Categories db)) then Inl IntegrityError
      else Inr (db\<lparr>Products := Products db @ [r]\<rparr>))"

definition insert_customer :: "customer_row \<Rightarrow> database \<Rightarrow> error + database" where
  "insert_customer r db =
     (if customer_id r \<in> set (map customer_id (Customers db)) then Inl IntegrityError
      else if total_spent r < 0 then Inl IntegrityError
      else Inr (db\<lparr>Customers := Customers db @ [r]\<rparr>))"

definition insert_order :: "order_row \<Rightarrow> database \<Rightarrow> error + database" where
  "insert_order r db =
     (if order_id r \<in> set (map order_id (Orders db)) then Inl IntegrityError
      else if order_total r < 0 then Inl IntegrityError
      else if o_customer_id r \<notin> set (map customer_id (Customers db)) then Inl IntegrityError
      else Inr (db\<lparr>Orders := Orders db @ [r]\<rparr>))"

definition insert_order_item :: "order_item_row \<Rightarrow> database \<Rightarrow> error + database" where
  "insert_order_item r db =
     (if (i_order_id r, item_no r) \<in> set (map (\<lambda>i. (i_order_id i, item_no i)) (Order_Items db))
      then Inl IntegrityError
      else if quantity r < 0 \<or> unit_price r < 0 \<or> line_total r < 0 then Inl IntegrityError
      else if i_order_id r \<notin> set (map order_id (Orders db)) then Inl IntegrityError
      else if i_product_id r \<notin> set (map product_id (Products db)) then Inl IntegrityError
      else Inr (db\<lparr>Order_Items := Order_Items db @ [r]\<rparr>))"

text \<open>
  A null \<open>shipment_id\<close> receives the next row id: one more than the largest row id of the
  table, and 1 in an empty table.
\<close>

definition next_rowid :: "int option list \<Rightarrow> int" where
  "next_rowid ids =
     (let ks = map the (filter (\<lambda>i. i \<noteq> None) ids)
      in if ks = [] then 1 else Max (set ks) + 1)"

definition insert_shipment :: "shipment_row \<Rightarrow> database \<Rightarrow> error + database" where
  "insert_shipment r db =
     (let ids = map shipment_id (Shipments db);
          sid = (case shipment_id r of None \<Rightarrow> next_rowid ids | Some k \<Rightarrow> k)
      in if Some sid \<in> set ids then Inl IntegrityError
         else if s_order_id r \<notin> set (map order_id (Orders db)) then Inl IntegrityError
         else Inr (db\<lparr>Shipments := Shipments db @ [r\<lparr>shipment_id := Some sid\<rparr>]\<rparr>))"

fun executemany ::
  "('r \<Rightarrow> database \<Rightarrow> error + database) \<Rightarrow> 'r list \<Rightarrow> database \<Rightarrow> error + database" where
  "executemany stmt [] db = Inr db"
| "executemany stmt (r # rs) db = and_then (stmt r db) (executemany stmt rs)"

text \<open>
  The sum that the order loop accumulates: \<open>order_total = 0.0\<close>, then
  \<open>order_total += line_total\<close> for each item in turn.
\<close>

definition float_sum :: "pyfloat list \<Rightarrow> pyfloat" where
  "float_sum xs = foldl fadd 0 xs"

text \<open>
  \<open>SELECT customer_id, SUM(order_total) FROM Orders GROUP BY customer_id\<close>: one result
  row for each customer id that occurs in Orders, in ascending order of the id, with the
  sum of the order totals of that customer's rows. \<open>SUM\<close> over a REAL column is library
  code that depends on the SQLite version: up to 3.43 it adds the values in row order with
  float addition, which is \<open>sql_sum\<close> below; from 3.44 it adds them with Kahan-Babuska
  compensation and can return a neighbouring float.
\<close>

definition sql_sum :: "pyfloat list \<Rightarrow> pyfloat" where
  "sql_sum xs = foldl fadd 0 xs"

definition cust_totals :: "database \<Rightarrow> (int \<times> pyfloat) list" where
  "cust_totals db =
     map (\<lambda>cid. (cid, sql_sum (map order_total
                         (filter (\<lambda>r. o_customer_id r = cid) (Orders db)))))
       (sort (remdups (map o_customer_id (Orders db))))"

text \<open>\<open>UPDATE Customers SET total_spent = ? WHERE customer_id = ?\<close>\<close>

definition update_total_spent :: "pyfloat \<times> int \<Rightarrow> database \<Rightarrow> error + database" where
  "update_total_spent = (\<lambda>(v, cid) db.
     if v < 0 \<and> cid \<in> set (map customer_id (Customers db)) then Inl IntegrityError
     else Inr (db\<lparr>Customers :=
                 map (\<lambda>c. if customer_id c = cid then c\<lparr>total_spent := v\<rparr> else c)
                   (Customers db)\<rparr>))"

section \<open>The script\<close>

text \<open>
  The two library functions that seed the generators are parameters: \<open>random_seed\<close> gives
  the stream of the \<open>random\<close> module after \<open>random.seed(s)\<close>, \<open>faker_seed\<close> the stream of
  Faker after \<open>Faker.seed(s)\<close>. \<open>today\<close> is the date of \<open>datetime.now()\<close> and \<open>file\<close> what
  \<open>ecommerce.db\<close> holds when the script starts. The result is the database at the end of
  the run, or the exception that ended it. The row counts printed at the end are the
  lengths of its tables.
\<close>

record seeding =
  random_seed :: "int \<Rightarrow> nat \<Rightarrow> nat"
  faker_seed :: "int \<Rightarrow> nat \<Rightarrow> string"

definition seeded :: "seeding \<Rightarrow> world" where
  "seeded lib = \<lparr>rnd = random_seed lib Faker_seed, fk = faker_seed lib Faker_seed\<rparr>"

definition gen_all_customers :: "date \<Rightarrow> world \<Rightarrow> error + (customer_row list \<times> world)" where
  "gen_all_customers today w =
     and_then (gen_customers today [1 .. NUM_CUSTOMERS] w) (\<lambda>(customers, w).
     and_then (add_missing customers w) (\<lambda>(customers, w).
     add_duplicates customers w))"

definition aggregate :: "database \<Rightarrow> error + database" where
  "aggregate db =
     executemany update_total_spent
       (map (\<lambda>(cid, tot). (round2 (if tot \<noteq> 0 then tot else 0), cid)) (cust_totals db))
       db"

definition run :: "world \<Rightarrow> date \<Rightarrow> database option \<Rightarrow> error + database" where
  "run w today file =
     and_then (create_schema file) (\<lambda>db.
     and_then (executemany insert_category category_rows db) (\<lambda>db.
     and_then (gen_products [1 .. NUM_PRODUCTS] w) (\<lambda>(products, w).
     and_then (executemany insert_product products db) (\<lambda>db.
     and_then (gen_all_customers today w) (\<lambda>(customers, w).
     and_then (executemany insert_customer customers db) (\<lambda>db.
     and_then (gen_orders products w) (\<lambda>(st, w).
     and_then (executemany insert_order (orders st) db) (\<lambda>db.
     and_then (executemany insert_order_item (order_items st) db) (\<lambda>db.
     and_then (executemany insert_shipment (shipments st) db) (\<lambda>db.
     aggregate db))))))))))"

definition main :: "seeding \<Rightarrow> date \<Rightarrow> database option \<Rightarrow> error + database" where
  "main lib today file = run (seeded lib) today file"

section \<open>Notions used in the statements\<close>

text \<open>
  \<open>random.choice\<close> takes the element at position \<open>r mod n\<close> of its sequence, every
  position being equally likely; \<open>choice_prob xs v\<close> is the share of the positions of \<open>xs\<close>
  that hold \<open>v\<close>, that is the probability that \<open>choice xs\<close> returns \<open>v\<close>.
\<close>

definition choice_prob :: "'a list \<Rightarrow> 'a \<Rightarrow> rat" where
  "choice_prob xs v = of_nat (length (filter (\<lambda>x. x = v) xs)) / of_nat (length xs)"

text \<open>
  Two customer rows that agree on every column except possibly the name and the email,
  and two that agree on every column except possibly email, phone and address.
\<close>

definition same_but_name_email :: "customer_row \<Rightarrow> customer_row \<Rightarrow> bool" where
  "same_but_name_email c c' \<longleftrightarrow>
     customer_id c' = customer_id c \<and> gender c' = gender c
     \<and> date_of_birth c' = date_of_birth c \<and> phone_number c' = phone_number c
     \<and> address c' = address c \<and> customer_tier c' = customer_tier c
     \<and> registration_date c' = registration_date c \<and> total_spent c' = total_spent c"

definition same_but_contact :: "customer_row \<Rightarrow> customer_row \<Rightarrow> bool" where
  "same_but_contact c c' \<longleftrightarrow>
     customer_id c' = customer_id c \<and> customer_name c' = customer_name c
     \<and> gender c' = gender c \<and> date_of_birth c' = date_of_birth c
     \<and> customer_tier c' = customer_tier c
     \<and> registration_date c' = registration_date c \<and> total_spent c' = total_spent c"

text \<open>Concrete inputs on which the statements below are instantiated.\<close>

definition const_world :: "nat \<Rightarrow> world" where
  "const_world r = \<lparr>rnd = (\<lambda>i. r), fk = (\<lambda>i. ''abc'')\<rparr>"

definition example_draws :: world where
  "example_draws = \<lparr>rnd = (\<lambda>i. if i = 13 then 2 ^ 52 else 3), fk = (\<lambda>i. ''abc'')\<rparr>"

definition example_seeding :: seeding where
  "example_seeding = \<lparr>random_seed = (\<lambda>s i. 3), faker_seed = (\<lambda>s i. ''abc'')\<rparr>"

definition example_customer :: customer_row where
  "example_customer =
     \<lparr>customer_id = 1, customer_name = ''Ann Lee'', gender = ''Female'',
      date_of_birth = 726000, email = Some ''ann@example.org'', phone_number = None,
      address = Some ''1 Main St, Springfield'', customer_tier = ''Gold'',
      registration_date = 737000, total_spent = 0\<rparr>"

definition example_customers :: "customer_row list" where
  "example_customers =
     map (\<lambda>i. example_customer
                 \<lparr>customer_id := int i + 1,
                  customer_name := (if i = 3 then ''Bob Ray'' else ''Ann Lee''),
                  email := (if i = 3 then Some ''bob@example.org''
                            else Some ''ann@example.org'')\<rparr>)
       [0 ..< 1000]"

definition example_product :: product_row where
  "example_product =
     \<lparr>product_id = 1, product_name = ''Table Pro 250'', p_category_id = 3,
      price = 20, stock = 7\<rparr>"

text \<open>
  The promo code that one pass of the base order loop gives its order when every raw
  draw is \<open>r\<close>.
\<close>

definition base_promo :: "nat \<Rightarrow> string option" where
  "base_promo r =
     (case gen_order [example_product] init_state (const_world r) of
        Inl e \<Rightarrow> None
      | Inr (st, w) \<Rightarrow> promo_code (last (orders st)))"

text \<open>
  What the script guarantees of an order item written for order \<open>oid\<close> from the catalog
  \<open>products\<close>, and of a shipment written for order \<open>oid\<close> placed on \<open>odate\<close>.
\<close>

definition good_item :: "product_row list \<Rightarrow> int \<Rightarrow> order_item_row \<Rightarrow> bool" where
  "good_item products oid i \<longleftrightarrow>
     i_order_id i = oid
     \<and> (\<exists>p \<in> set products. i_product_id i = product_id p \<and> unit_price i = price p)
     \<and> 1 \<le> quantity i \<and> quantity i \<le> 5
     \<and> (\<exists>d \<in> set discount_pool.
           line_total i = round2 (fmul (fmul (unit_price i) (of_int (quantity i))) (fsub 1 d)))"

definition dates_ordered :: "shipment_row \<Rightarrow> bool" where
  "dates_ordered s \<longleftrightarrow>
     (case delivery_date s of
        None \<Rightarrow> True
      | Some dd \<Rightarrow> (case shipped_date s of None \<Rightarrow> False | Some sd \<Rightarrow> sd \<le> dd))"

definition good_shipment :: "int \<Rightarrow> date \<Rightarrow> shipment_row \<Rightarrow> bool" where
  "good_shipment oid odate s \<longleftrightarrow>
     s_order_id s = oid \<and> shipment_id s = None \<and> carrier s \<in> set carrier_pool
     \<and> dates_ordered s
     \<and> (case shipped_date s of None \<Rightarrow> True | Some sd \<Rightarrow> odate \<le> sd \<and> sd \<le> odate + 20)
     \<and> (case delivery_date s of None \<Rightarrow> True | Some dd \<Rightarrow> odate \<le> dd \<and> dd \<le> odate + 40)"

definition items_of :: "order_item_row list \<Rightarrow> int \<Rightarrow> order_item_row list" where
  "items_of items oid = filter (\<lambda>i. i_order_id i = oid) items"

text \<open>
  The effect of one pass of the base order loop and of one pass of the near-duplicate
  loop on the rows generated so far.
\<close>

definition base_step :: "product_row list \<Rightarrow> gen_state \<Rightarrow> gen_state \<Rightarrow> bool" where
  "base_step products st st' \<longleftrightarrow>
     (\<exists>ord items ships.
        orders st' = orders st @ [ord]
        \<and> order_items st' = order_items st @ items
        \<and> shipments st' = shipments st @ ships
        \<and> order_id_seq st' = order_id_seq st + 1
        \<and> order_id ord = order_id_seq st
        \<and> 1 \<le> o_customer_id ord \<and> o_customer_id ord \<le> NUM_CUSTOMERS
        \<and> promo_code ord \<in> set promo_pool
        \<and> order_total ord = round2 (float_sum (map line_total items))
        \<and> 1 \<le> length items \<and> length items \<le> 4
        \<and> map item_no items = map (\<lambda>k. 1 + int k) [0 ..< length items]
        \<and> list_all (good_item products (order_id_seq st)) items
        \<and> length ships \<le> 1
        \<and> list_all (good_shipment (order_id_seq st) (order_date ord)) ships)"

definition dup_step :: "product_row list \<Rightarrow> gen_state \<Rightarrow> gen_state \<Rightarrow> bool" where
  "dup_step products st st' \<longleftrightarrow>
     (\<exists>row prod ships.
        row \<in> set (orders st) \<and> prod \<in> set products
        \<and> orders st' = orders st @
              [\<lparr>order_id = order_id_seq st, o_customer_id = o_customer_id row,
                order_date = order_date row,
                order_total = round2 (fmul (price prod) 1),
                promo_code = promo_code row\<rparr>]
        \<and> order_items st' = order_items st @
              [\<lparr>i_order_id = order_id_seq st, item_no = 1, i_product_id = product_id prod,
                quantity = 1, unit_price = price prod,
                line_total = round2 (fmul (price prod) 1)\<rparr>]
        \<and> shipments st' = shipments st @ ships
        \<and> order_id_seq st' = order_id_seq st + 1
        \<and> length ships \<le> 1
        \<and> list_all (good_shipment (order_id_seq st) (order_date row)) ships)"

text \<open>The prices that the product generator produces lie between the two bounds.\<close>

definition priced :: "product_row list \<Rightarrow> bool" where
  "priced products \<longleftrightarrow> list_all (\<lambda>p. 5 \<le> price p \<and> price p \<le> 1000) products"

text \<open>The state of the order loops between two passes.\<close>

definition order_inv :: "product_row list \<Rightarrow> gen_state \<Rightarrow> bool" where
  "order_inv products st \<longleftrightarrow>
     1 \<le> order_id_seq st
     \<and> map order_id (orders st) = [1 .. order_id_seq st - 1]
     \<and> list_all (\<lambda>ord. 1 \<le> o_customer_id ord \<and> o_customer_id ord \<le> NUM_CUSTOMERS
                  \<and> promo_code ord \<in> set promo_pool
                  \<and> 9/2 \<le> order_total ord
                  \<and> order_total ord =
                      round2 (float_sum (map line_total
                                (items_of (order_items st) (order_id ord)))))
          (orders st)
     \<and> list_all (\<lambda>i. good_item products (i_order_id i) i
                  \<and> 1 \<le> i_order_id i \<and> i_order_id i < order_id_seq st
                  \<and> 9/2 \<le> line_total i)
          (order_items st)
     \<and> distinct (map (\<lambda>i. (i_order_id i, item_no i)) (order_items st))
     \<and> list_all (\<lambda>s. \<exists>ord \<in> set (orders st). good_shipment (order_id ord) (order_date ord) s)
          (shipments st)
     \<and> distinct (map s_order_id (shipments st))"

text \<open>
  The order at position \<open>k\<close> of the order list is a near-duplicate: it repeats customer,
  date and promo code of an order at an earlier position, and its only order item has
  item number 1 and quantity 1, is priced from the catalog and carries the order total.
\<close>

definition near_duplicate ::
  "product_row list \<Rightarrow> order_row list \<Rightarrow> order_item_row list \<Rightarrow> nat \<Rightarrow> bool" where
  "near_duplicate products os items k \<longleftrightarrow>
     (\<exists>j it. j < k
        \<and> o_customer_id (os ! k) = o_customer_id (os ! j)
        \<and> order_date (os ! k) = order_date (os ! j)
        \<and> promo_code (os ! k) = promo_code (os ! j)
        \<and> items_of items (order_id (os ! k)) = [it]
        \<and> item_no it = 1 \<and> quantity it = 1
        \<and> (\<exists>p \<in> set products. i_product_id it = product_id p \<and> unit_price it = price p)
        \<and> order_total (os ! k) = line_total it)"

definition dup_inv :: "product_row list \<Rightarrow> nat \<Rightarrow> gen_state \<Rightarrow> bool" where
  "dup_inv products n st \<longleftrightarrow>
     order_inv products st \<and> n \<le> length (orders st)
     \<and> (\<forall>k. n \<le> k \<and> k < length (orders st) \<longrightarrow> near_duplicate products (orders st) (order_items st) k)"

text \<open>Shipment rows as stored: the null ids replaced by consecutive row ids.\<close>

fun number_from :: "int \<Rightarrow> shipment_row list \<Rightarrow> shipment_row list" where
  "number_from k [] = []"
| "number_from k (r # rs) = r\<lparr>shipment_id := Some k\<rparr> # number_from (k + 1) rs"

text \<open>
  The customer rows after the aggregation pass over the order rows \<open>os\<close>: a customer with
  orders receives the rounded float sum of their totals, any other row is left as it is.
\<close>

definition spent :: "order_row list \<Rightarrow> int \<Rightarrow> pyfloat" where
  "spent os cid = round2 (sql_sum (map order_total (filter (\<lambda>r. o_customer_id r = cid) os)))"

definition with_totals :: "order_row list \<Rightarrow> customer_row list \<Rightarrow> customer_row list" where
  "with_totals os cs =
     map (\<lambda>c. if customer_id c \<in> set (map o_customer_id os)
              then c\<lparr>total_spent := spent os (customer_id c)\<rparr> else c) cs"

text \<open>The database at the end of a run that generated the given rows.\<close>

definition final_db ::
  "product_row list \<Rightarrow> customer_row list \<Rightarrow> gen_state \<Rightarrow> database" where
  "final_db products customers st =
     \<lparr>Categories = category_rows, Products = products,
      Customers = with_totals (orders st) customers,
      Orders = orders st, Order_Items = order_items st,
      Shipments = number_from 1 (shipments st)\<rparr>"

section \<open>Properties of the float operations\<close>

lemma rne_of_int: "rne (of_int k) = k"
  by (simp add: rne_def)

lemma rne_mono: "x \<le> y \<Longrightarrow> rne x \<le> rne y"
proof -
  assume xy: "x \<le> y"
  have fx: "of_int \<lfloor>x\<rfloor> \<le> x" "x < of_int \<lfloor>x\<rfloor> + 1" by linarith+
  have fy: "of_int \<lfloor>y\<rfloor> \<le> y" "y < of_int \<lfloor>y\<rfloor> + 1" by linarith+
  have ff: "\<lfloor>x\<rfloor> \<le> \<lfloor>y\<rfloor>" using xy by (rule floor_mono)
  show ?thesis
  proof (cases "\<lfloor>x\<rfloor> = \<lfloor>y\<rfloor>")
    case True
    then show ?thesis using xy by (auto simp: rne_def Let_def)
  next
    case False
    then have "\<lfloor>x\<rfloor> + 1 \<le> \<lfloor>y\<rfloor>" using ff by simp
    moreover have "rne x \<le> \<lfloor>x\<rfloor> + 1" by (auto simp: rne_def Let_def)
    moreover have "\<lfloor>y\<rfloor> \<le> rne y" by (auto simp: rne_def Let_def)
    ultimately show ?thesis by linarith
  qed
qed

lemma rne_ge: "of_int k \<le> x \<Longrightarrow> k \<le> rne x"
  using rne_mono [of "of_int k" x] by (simp add: rne_of_int)

lemma rne_le: "x \<le> of_int k \<Longrightarrow> rne x \<le> k"
  using rne_mono [of x "of_int k"] by (simp add: rne_of_int)

lemma bitlen_powi_bounds:
  assumes "0 < p"
  shows "(2::rat) powi (bitlen p - 1) \<le> of_int p" and "of_int p < (2::rat) powi (bitlen p)"
proof -
  have b1: "1 \<le> bitlen p" using assms by (simp add: bitlen_alt_def)
  have lo: "2 ^ nat (bitlen p - 1) \<le> p" and hi: "p < 2 ^ nat (bitlen p)"
    using bitlen_bounds [OF assms] by auto
  have "(of_int (2 ^ nat (bitlen p - 1)) :: rat) \<le> of_int p"
    using lo of_int_le_iff by blast
  then show "(2::rat) powi (bitlen p - 1) \<le> of_int p"
    using b1 by (simp add: power_int_nonneg_exp)
  have "(of_int p :: rat) < of_int (2 ^ nat (bitlen p))"
    using hi of_int_less_iff by blast
  then show "of_int p < (2::rat) powi (bitlen p)"
    using b1 by (simp add: power_int_nonneg_exp)
qed

lemma expo_bounds:
  assumes "x \<noteq> 0"
  shows "2 powi (expo x) \<le> \<bar>x\<bar>" and "\<bar>x\<bar> < 2 powi (expo x + 1)"
proof -
  obtain p q where pq: "quotient_of \<bar>x\<bar> = (p, q)" by (cases "quotient_of \<bar>x\<bar>")
  have q: "0 < q" using pq quotient_of_denom_pos by blast
  have xe: "\<bar>x\<bar> = of_int p / of_int q" using pq quotient_of_div by blast
  have "0 < \<bar>x\<bar>" using assms by simp
  then have p: "0 < p" using xe q by (simp add: zero_less_divide_iff)
  define d where "d = bitlen p - bitlen q"
  define P where "P = (of_int p :: rat)"
  define Q where "Q = (of_int q :: rat)"
  have Qpos: "0 < Q" and Ppos: "0 < P" using p q by (simp_all add: P_def Q_def)
  note bp = bitlen_powi_bounds [OF p, folded P_def]
  note bq = bitlen_powi_bounds [OF q, folded Q_def]
  have s1: "(2::rat) powi (d - 1) * 2 powi (bitlen q) = 2 powi (bitlen p - 1)"
    by (simp add: d_def flip: power_int_add)
  have s2: "(2::rat) powi (d + 1) * 2 powi (bitlen q - 1) = 2 powi (bitlen p)"
    by (simp add: d_def flip: power_int_add)
  have "(2::rat) powi (d - 1) * Q \<le> 2 powi (d - 1) * 2 powi (bitlen q)"
    using bq(2) by (intro mult_left_mono) simp_all
  also have "\<dots> \<le> P" using s1 bp(1) by simp
  finally have lo: "(2::rat) powi (d - 1) \<le> \<bar>x\<bar>"
    using Qpos by (simp add: xe P_def [symmetric] Q_def [symmetric] pos_le_divide_eq)
  have "P < 2 powi (d + 1) * 2 powi (bitlen q - 1)" using s2 bp(2) by simp
  also have "\<dots> \<le> 2 powi (d + 1) * Q"
    using bq(1) by (intro mult_left_mono) simp_all
  finally have hi: "\<bar>x\<bar> < (2::rat) powi (d + 1)"
    using Qpos by (simp add: xe P_def [symmetric] Q_def [symmetric] pos_divide_less_eq)
  have e: "expo x = (if 2 powi d \<le> \<bar>x\<bar> then d else d - 1)"
    by (simp add: expo_def pq d_def Let_def)
  show "2 powi (expo x) \<le> \<bar>x\<bar>" using e lo by auto
  show "\<bar>x\<bar> < 2 powi (expo x + 1)" using e hi by (auto simp: not_le)
qed

lemma pow2_mono: "a \<le> b \<Longrightarrow> (2::rat) powi a \<le> 2 powi b"
  by (rule power_int_increasing) simp_all

lemma pow2_less_D: "(2::rat) powi a < 2 powi b \<Longrightarrow> a < b"
  using pow2_mono [of b a] by (cases "a < b") auto

lemma pow2_pos: "0 < (2::rat) powi a"
  by simp

lemma expo_unique:
  assumes "2 powi e \<le> \<bar>x\<bar>" and "\<bar>x\<bar> < 2 powi (e + 1)"
  shows "expo x = e"
proof -
  have "0 < \<bar>x\<bar>" using assms(1) pow2_pos [of e] by linarith
  then have x0: "x \<noteq> 0" by simp
  note b = expo_bounds [OF x0]
  have "(2::rat) powi e < 2 powi (expo x + 1)" using assms(1) b(2) by linarith
  then have 1: "e < expo x + 1" by (rule pow2_less_D)
  have "(2::rat) powi (expo x) < 2 powi (e + 1)" using assms(2) b(1) by linarith
  then have 2: "expo x < e + 1" by (rule pow2_less_D)
  show ?thesis using 1 2 by simp
qed

lemma expo_mono:
  assumes "0 < x" and "x \<le> y"
  shows "expo x \<le> expo y"
proof -
  have x0: "x \<noteq> 0" and y0: "y \<noteq> 0" using assms by auto
  have "(2::rat) powi (expo x) \<le> \<bar>x\<bar>" using expo_bounds(1) [OF x0] .
  also have "\<bar>x\<bar> \<le> \<bar>y\<bar>" using assms by simp
  also have "\<bar>y\<bar> < 2 powi (expo y + 1)" using expo_bounds(2) [OF y0] .
  finally have "expo x < expo y + 1" by (rule pow2_less_D)
  then show ?thesis by simp
qed

lemma ulp_pos: "0 < ulp x"
  by (simp add: ulp_def)

lemma fl_ulp: "x \<noteq> 0 \<Longrightarrow> fl x = of_int (rne (x / ulp x)) * ulp x"
  by (simp add: fl_def)

lemma fl_0: "fl 0 = 0"
  by (simp add: fl_def)

lemma fl_nonneg: "0 \<le> x \<Longrightarrow> 0 \<le> fl x"
proof (cases "x = 0")
  case True
  then show ?thesis by (simp add: fl_0)
next
  case False
  assume "0 \<le> x"
  then have "(of_int 0 :: rat) \<le> x / ulp x" using ulp_pos [of x] by simp
  then have "0 \<le> rne (x / ulp x)" by (rule rne_ge)
  then show ?thesis using ulp_pos [of x] by (simp add: fl_ulp [OF False])
qed

text \<open>Within a binade the rounded value stays between the powers of two around it.\<close>

lemma fl_upper:
  assumes "0 < x"
  shows "fl x \<le> 2 powi (max (expo x) (- 1022) + 1)"
proof -
  define m where "m = max (expo x) (- 1022)"
  have x0: "x \<noteq> 0" using assms by simp
  have u: "ulp x = 2 powi (m - 52)" by (simp add: ulp_def m_def)
  have "x < 2 powi (expo x + 1)" using expo_bounds(2) [OF x0] assms by simp
  also have "\<dots> \<le> 2 powi (m + 1)" by (rule pow2_mono) (simp add: m_def)
  also have "\<dots> = 2 ^ 53 * ulp x" by (simp add: u power_int_diff power_int_add)
  finally have "x / ulp x \<le> of_int (2 ^ 53)" using ulp_pos [of x] by (simp add: pos_divide_le_eq)
  then have "rne (x / ulp x) \<le> 2 ^ 53" by (rule rne_le)
  then have "(of_int (rne (x / ulp x)) :: rat) \<le> of_int (2 ^ 53)" using of_int_le_iff by blast
  then have "fl x \<le> of_int (2 ^ 53) * ulp x"
    using ulp_pos [of x] by (simp add: fl_ulp [OF x0])
  also have "\<dots> = 2 powi (m + 1)" by (simp add: u power_int_diff power_int_add)
  finally show ?thesis by (simp add: m_def)
qed

lemma fl_lower:
  assumes "0 < x" and "- 1022 \<le> expo x"
  shows "2 powi (expo x) \<le> fl x"
proof -
  have x0: "x \<noteq> 0" using assms by simp
  have u: "ulp x = 2 powi (expo x - 52)" using assms(2) by (simp add: ulp_def max_def)
  have "of_int (2 ^ 52) * ulp x = 2 powi (expo x)" by (simp add: u power_int_diff)
  also have "\<dots> \<le> x" using expo_bounds(1) [OF x0] assms by simp
  finally have "of_int (2 ^ 52) \<le> x / ulp x" using ulp_pos [of x] by (simp add: pos_le_divide_eq)
  then have "2 ^ 52 \<le> rne (x / ulp x)" by (rule rne_ge)
  then have "(of_int (2 ^ 52) :: rat) \<le> of_int (rne (x / ulp x))" using of_int_le_iff by blast
  then have "of_int (2 ^ 52) * ulp x \<le> fl x"
    using ulp_pos [of x] by (simp add: fl_ulp [OF x0])
  moreover have "of_int (2 ^ 52) * ulp x = 2 powi (expo x)" by (simp add: u power_int_diff)
  ultimately show ?thesis by simp
qed

lemma fl_mono_pos:
  assumes "0 < x" and "x \<le> y"
  shows "fl x \<le> fl y"
proof -
  have x0: "x \<noteq> 0" and y0: "y \<noteq> 0" and ypos: "0 < y" using assms by auto
  define mx where "mx = max (expo x) (- 1022)"
  define my where "my = max (expo y) (- 1022)"
  have le: "mx \<le> my" using expo_mono [OF assms] by (simp add: mx_def my_def)
  show ?thesis
  proof (cases "mx = my")
    case True
    then have u: "ulp x = ulp y" by (simp add: ulp_def mx_def my_def)
    have "x / ulp y \<le> y / ulp y" using assms(2) ulp_pos [of y] by (simp add: divide_right_mono)
    then have "rne (x / ulp y) \<le> rne (y / ulp y)" by (rule rne_mono)
    then have "(of_int (rne (x / ulp y)) :: rat) \<le> of_int (rne (y / ulp y))"
      using of_int_le_iff by blast
    then show ?thesis
      using ulp_pos [of y] by (simp add: fl_ulp [OF x0] fl_ulp [OF y0] u)
  next
    case False
    then have lt: "mx + 1 \<le> my" using le by simp
    then have ey: "- 1022 \<le> expo y" and my: "my = expo y" by (auto simp: mx_def my_def)
    have "fl x \<le> 2 powi (mx + 1)" using fl_upper [OF assms(1)] by (simp add: mx_def)
    also have "\<dots> \<le> 2 powi (expo y)" using lt my by (intro pow2_mono) simp
    also have "\<dots> \<le> fl y" by (rule fl_lower [OF ypos ey])
    finally show ?thesis .
  qed
qed

lemma fl_mono_nonneg:
  assumes "0 \<le> x" and "x \<le> y"
  shows "fl x \<le> fl y"
proof (cases "x = 0")
  case True
  then show ?thesis using assms fl_nonneg [of y] by (simp add: fl_0)
next
  case False
  then show ?thesis using assms fl_mono_pos [of x y] by simp
qed


lemma rne_neg: "rne (- x) = - rne x"
proof (cases "x = of_int \<lfloor>x\<rfloor>")
  case True
  then obtain k where "x = of_int k" by blast
  then have "- x = of_int (- k)" by simp
  then show ?thesis using \<open>x = of_int k\<close> rne_of_int by metis
next
  case False
  then have c: "\<lceil>x\<rceil> = \<lfloor>x\<rfloor> + 1" by (simp add: ceiling_altdef)
  have f: "\<lfloor>- x\<rfloor> = - \<lfloor>x\<rfloor> - 1" using c by (simp add: floor_minus)
  show ?thesis
    unfolding rne_def Let_def f by (auto simp: field_simps)
qed

lemma expo_neg: "expo (- x) = expo x"
  by (simp add: expo_def)

lemma fl_neg: "fl (- x) = - fl x"
  by (simp add: fl_def ulp_def expo_neg rne_neg)

lemma fl_mono:
  assumes "x \<le> y"
  shows "fl x \<le> fl y"
proof (cases "0 \<le> x")
  case True
  then show ?thesis using assms by (rule fl_mono_nonneg)
next
  case xneg: False
  show ?thesis
  proof (cases "0 \<le> y")
    case True
    have "fl (- x) \<ge> 0" using xneg by (intro fl_nonneg) simp
    then have "fl x \<le> 0" by (simp add: fl_neg)
    then show ?thesis using fl_nonneg [OF True] by linarith
  next
    case False
    then have "fl (- y) \<le> fl (- x)" using assms by (intro fl_mono_nonneg) simp_all
    then show ?thesis by (simp add: fl_neg)
  qed
qed

text \<open>Numbers \<open>m * 2^e\<close> with at most 53 significant bits are floats.\<close>

lemma fl_representable_pos:
  assumes m: "0 < m" "m \<le> 2 ^ 53" and e: "- 1074 \<le> e"
  shows "fl (of_int m * 2 powi e) = of_int m * 2 powi e"
proof -
  define v :: rat where "v = of_int m * 2 powi e"
  have vpos: "0 < v" using m by (simp add: v_def)
  then have v0: "v \<noteq> 0" by simp
  define k where "k = max (expo v) (- 1022) - 52"
  have u: "ulp v = 2 powi k" by (simp add: ulp_def k_def)
  have "\<exists>j. v / ulp v = of_int j"
  proof (cases "m = 2 ^ 53")
    case True
    then have veq: "v = 2 powi (e + 53)" by (simp add: v_def power_int_add)
    have "expo v = e + 53"
      by (rule expo_unique) (simp_all add: veq power_int_add)
    then have "k = e + 1" using e by (simp add: k_def)
    then have "v / ulp v = v / 2 powi (e + 1)" by (simp add: u)
    also have "\<dots> = of_int (2 ^ 52)" by (simp add: veq power_int_add)
    finally show ?thesis by blast
  next
    case False
    then have "m < 2 ^ 53" using m by simp
    then have "(of_int m :: rat) < of_int (2 ^ 53)" using of_int_less_iff by blast
    then have "v < 2 ^ 53 * 2 powi e" by (simp add: v_def)
    also have "\<dots> = 2 powi (e + 53)" by (simp add: power_int_add)
    finally have "2 powi (expo v) < (2::rat) powi (e + 53)"
      using expo_bounds(1) [OF v0] vpos by simp
    then have "expo v < e + 53" by (rule pow2_less_D)
    then have ke: "k \<le> e" using e by (simp add: k_def)
    have "v / ulp v = v / 2 powi k" by (simp add: u)
    also have "\<dots> = of_int m * 2 powi (e - k)" by (simp add: v_def power_int_diff)
    also have "\<dots> = of_int (m * 2 ^ nat (e - k))" using ke by (simp add: power_int_nonneg_exp)
    finally show ?thesis by blast
  qed
  then obtain j where j: "v / ulp v = of_int j" ..
  have "fl v = of_int (rne (v / ulp v)) * ulp v" by (rule fl_ulp [OF v0])
  also have "\<dots> = v / ulp v * ulp v" by (simp add: j rne_of_int)
  also have "\<dots> = v" using ulp_pos [of v] by simp
  finally show ?thesis by (simp add: v_def)
qed

lemma fl_representable:
  assumes "\<bar>m\<bar> \<le> 2 ^ 53" and "- 1074 \<le> e"
  shows "fl (of_int m * 2 powi e) = of_int m * 2 powi e"
proof -
  consider "m = 0" | "0 < m" | "m < 0" by linarith
  then show ?thesis
  proof cases
    case 1
    then show ?thesis by (simp add: fl_0)
  next
    case 2
    then show ?thesis using assms by (intro fl_representable_pos) simp_all
  next
    case 3
    then have "fl (of_int (- m) * 2 powi e) = of_int (- m) * 2 powi e"
      using assms by (intro fl_representable_pos) simp_all
    then show ?thesis using fl_neg [of "of_int m * 2 powi e"] by simp
  qed
qed

lemma fl_of_int: "\<bar>m\<bar> \<le> 2 ^ 53 \<Longrightarrow> fl (of_int m) = of_int m"
  using fl_representable [of m 0] by simp

lemma fl_idem: "fl (fl x) = fl x"
proof -
  have pos: "fl (fl x) = fl x" if "0 < x" for x
  proof -
    have x0: "x \<noteq> 0" using that by simp
    define M where "M = max (expo x) (- 1022)"
    have u: "ulp x = 2 powi (M - 52)" by (simp add: ulp_def M_def)
    have f: "fl x = of_int (rne (x / ulp x)) * 2 powi (M - 52)"
      by (simp add: fl_ulp [OF x0] u)
    have "x < 2 powi (expo x + 1)" using expo_bounds(2) [OF x0] that by simp
    also have "\<dots> \<le> 2 powi (M + 1)" by (rule pow2_mono) (simp add: M_def)
    also have "\<dots> = 2 ^ 53 * ulp x" by (simp add: u power_int_diff power_int_add)
    finally have "x / ulp x \<le> of_int (2 ^ 53)"
      using ulp_pos [of x] by (simp add: pos_divide_le_eq)
    then have hi: "rne (x / ulp x) \<le> 2 ^ 53" by (rule rne_le)
    have "(of_int 0 :: rat) \<le> x / ulp x" using that ulp_pos [of x] by simp
    then have lo: "0 \<le> rne (x / ulp x)" by (rule rne_ge)
    show ?thesis unfolding f
      by (rule fl_representable) (use lo hi in \<open>simp_all add: M_def\<close>)
  qed
  consider "x = 0" | "0 < x" | "x < 0" by linarith
  then show ?thesis
  proof cases
    case 1
    then show ?thesis by (simp add: fl_0)
  next
    case 2
    then show ?thesis by (rule pos)
  next
    case 3
    then have "fl (fl (- x)) = fl (- x)" by (intro pos) simp
    then show ?thesis by (simp add: fl_neg)
  qed
qed

lemma round2_mono: "x \<le> y \<Longrightarrow> round2 x \<le> round2 y"
proof -
  assume "x \<le> y"
  then have "rne (x * 100) \<le> rne (y * 100)" by (intro rne_mono) simp
  then have "(of_int (rne (x * 100)) :: rat) / 100 \<le> of_int (rne (y * 100)) / 100"
    by (simp add: divide_right_mono)
  then show ?thesis unfolding round2_def by (rule fl_mono)
qed

lemma round2_idem_fl: "fl (round2 x) = round2 x"
  by (simp add: round2_def fl_idem)

section \<open>Properties of the library functions\<close>

lemma rne_error: "\<bar>of_int (rne z) - z\<bar> \<le> 1/2"
proof -
  have "of_int \<lfloor>z\<rfloor> \<le> z" "z < of_int \<lfloor>z\<rfloor> + 1" by linarith+
  then show ?thesis unfolding rne_def Let_def by (auto simp: abs_le_iff)
qed

lemma rne_near:
  assumes "\<bar>x - of_int k\<bar> < 1/2"
  shows "rne x = k"
proof -
  have "\<bar>of_int (rne x) - x\<bar> \<le> 1/2" by (rule rne_error)
  then have "\<bar>(of_int (rne x) :: rat) - of_int k\<bar> < 1" using assms by linarith
  then have "\<bar>(of_int (rne x - k) :: rat)\<bar> < of_int 1" by simp
  then have "\<bar>rne x - k\<bar> < 1" unfolding of_int_abs [symmetric] of_int_less_iff .
  then show ?thesis by simp
qed

lemma fl_error:
  assumes "x \<noteq> 0"
  shows "\<bar>fl x - x\<bar> \<le> ulp x / 2"
proof -
  have "\<bar>of_int (rne (x / ulp x)) - x / ulp x\<bar> \<le> 1/2" by (rule rne_error)
  then have "\<bar>of_int (rne (x / ulp x)) - x / ulp x\<bar> * ulp x \<le> 1/2 * ulp x"
    using ulp_pos [of x] by (intro mult_right_mono) simp_all
  moreover have "\<bar>of_int (rne (x / ulp x)) - x / ulp x\<bar> * ulp x
      = \<bar>(of_int (rne (x / ulp x)) - x / ulp x) * ulp x\<bar>"
    using ulp_pos [of x] by (simp add: abs_mult)
  moreover have "(of_int (rne (x / ulp x)) - x / ulp x) * ulp x = fl x - x"
    using ulp_pos [of x] by (simp add: fl_ulp [OF assms] left_diff_distrib)
  ultimately show ?thesis by simp
qed

text \<open>In the normal range the rounding error is at most \<open>2^-53\<close> relative.\<close>

lemma fl_rel_error:
  assumes "2 powi (- 1022) \<le> \<bar>x\<bar>"
  shows "\<bar>fl x - x\<bar> \<le> \<bar>x\<bar> / 2 ^ 53"
proof -
  have "0 < \<bar>x\<bar>" using assms pow2_pos [of "- 1022"] by linarith
  then have x0: "x \<noteq> 0" by simp
  have "(2::rat) powi (- 1022) < 2 powi (expo x + 1)"
    using assms expo_bounds(2) [OF x0] by linarith
  then have "- 1022 < expo x + 1" by (rule pow2_less_D)
  then have u: "ulp x = 2 powi (expo x) / 2 ^ 52" by (simp add: ulp_def max_def power_int_diff)
  have "\<bar>fl x - x\<bar> \<le> ulp x / 2" by (rule fl_error [OF x0])
  also have "\<dots> = 2 powi (expo x) / 2 ^ 53" by (simp add: u)
  also have "\<dots> \<le> \<bar>x\<bar> / 2 ^ 53" using expo_bounds(1) [OF x0] by (simp add: divide_right_mono)
  finally show ?thesis .
qed

lemma round2_round2:
  assumes "\<bar>rne (x * 100)\<bar> < 2 ^ 52"
  shows "round2 (round2 x) = round2 x"
proof -
  define k where "k = rne (x * 100)"
  define y :: rat where "y = of_int k / 100"
  have r: "round2 x = fl y" by (simp add: round2_def k_def y_def)
  have "rne (fl y * 100) = k"
  proof (cases "k = 0")
    case True
    then show ?thesis by (simp add: y_def fl_0 rne_def)
  next
    case False
    then have "1 \<le> \<bar>k\<bar>" by simp
    then have "(of_int 1 :: rat) \<le> of_int \<bar>k\<bar>" using of_int_le_iff by blast
    then have ylo: "1 / 100 \<le> \<bar>y\<bar>" by (simp add: y_def)
    have "(2::rat) powi (- 1022) \<le> 2 powi (- 7)" by (rule pow2_mono) simp
    also have "\<dots> \<le> 1 / 100" by (simp add: power_int_minus_divide)
    finally have "2 powi (- 1022) \<le> \<bar>y\<bar>" using ylo by linarith
    then have e: "\<bar>fl y - y\<bar> \<le> \<bar>y\<bar> / 2 ^ 53" by (rule fl_rel_error)
    have "\<bar>k\<bar> < 2 ^ 52" using assms by (simp add: k_def)
    then have "(of_int \<bar>k\<bar> :: rat) < of_int (2 ^ 52)" using of_int_less_iff by blast
    then have "\<bar>y\<bar> * 100 < 2 ^ 52" by (simp add: y_def)
    then have "\<bar>y\<bar> / 2 ^ 53 * 100 < 1 / 2" by simp
    moreover have "\<bar>fl y - y\<bar> * 100 \<le> \<bar>y\<bar> / 2 ^ 53 * 100" using e by simp
    ultimately have "\<bar>fl y - y\<bar> * 100 < 1 / 2" by linarith
    moreover have "\<bar>(fl y - y) * 100\<bar> = \<bar>fl y - y\<bar> * \<bar>100\<bar>" by (rule abs_mult)
    moreover have "(fl y - y) * 100 = fl y * 100 - of_int k"
      by (simp add: y_def left_diff_distrib)
    ultimately show ?thesis by (intro rne_near) simp
  qed
  then have "round2 (fl y) = fl (of_int k / 100)" unfolding round2_def by simp
  then show ?thesis by (simp add: r y_def)
qed

lemma and_then_Inl [simp]: "and_then (Inl e) f = Inl e"
  by (simp add: and_then_def)

lemma and_then_Inr [simp]: "and_then (Inr x) f = f x"
  by (simp add: and_then_def)

lemma and_then_eq_Inr:
  "and_then m f = Inr y \<longleftrightarrow> (\<exists>x. m = Inr x \<and> f x = Inr y)"
  by (cases m) simp_all

lemma randbelow_less: "0 < n \<Longrightarrow> fst (randbelow n w) < n"
  by (simp add: randbelow_def next_raw_def)

lemma randint_range:
  assumes "randint a b w = Inr (k, w')"
  shows "a \<le> k" and "k \<le> b"
proof -
  have ab: "a \<le> b" using assms by (auto simp: randint_def split: if_splits)
  have k: "k = a + int (fst (randbelow (nat (b - a + 1)) w))"
    using assms ab by (auto simp: randint_def split: prod.splits)
  show "a \<le> k" by (simp add: k)
  have "fst (randbelow (nat (b - a + 1)) w) < nat (b - a + 1)"
    using ab by (intro randbelow_less) simp
  then show "k \<le> b" using ab by (simp add: k)
qed

lemma randint_total: "a \<le> b \<Longrightarrow> \<exists>k w'. randint a b w = Inr (k, w')"
  by (simp add: randint_def split: prod.splits)

lemma choice_mem: "choice xs w = Inr (x, w') \<Longrightarrow> x \<in> set xs"
  using randbelow_less [of "length xs" w]
  by (auto simp: choice_def split: if_splits prod.splits)

lemma choice_total: "xs \<noteq> [] \<Longrightarrow> \<exists>x w'. choice xs w = Inr (x, w')"
  by (simp add: choice_def split: prod.splits)

lemma bisect_bounds: "lo \<le> hi \<Longrightarrow> lo \<le> bisect a x lo hi \<and> bisect a x lo hi \<le> hi"
proof (induction a x lo hi rule: bisect.induct)
  case (1 a x lo hi)
  show ?case
  proof (cases "lo < hi")
    case True
    define mid where "mid = (lo + hi) div 2"
    have m: "lo \<le> mid" "mid < hi" using True by (simp_all add: mid_def)
    show ?thesis
    proof (cases "x < a ! mid")
      case lt: True
      then have "bisect a x lo hi = bisect a x lo mid"
        using True by (subst bisect.simps) (simp add: mid_def Let_def)
      moreover have "lo \<le> bisect a x lo mid \<and> bisect a x lo mid \<le> mid"
        using "1.IH"(1) [OF True mid_def lt] m by simp
      ultimately show ?thesis using m by simp
    next
      case ge: False
      then have "bisect a x lo hi = bisect a x (mid + 1) hi"
        using True by (subst bisect.simps) (simp add: mid_def Let_def)
      moreover have "mid + 1 \<le> bisect a x (mid + 1) hi \<and> bisect a x (mid + 1) hi \<le> hi"
        using "1.IH"(2) [OF True mid_def ge] m by simp
      ultimately show ?thesis using m by simp
    qed
  next
    case False
    then show ?thesis using "1.prems" by (subst (1 2) bisect.simps) simp
  qed
qed

lemma choices_mem: "choices pop ws w = Inr (x, w') \<Longrightarrow> x \<in> set pop"
proof -
  assume a: "choices pop ws w = Inr (x, w')"
  then have n: "pop \<noteq> []" by (auto simp: choices_def Let_def split: if_splits)
  have "bisect cw y 0 (length pop - 1) < length pop" for cw y
    using bisect_bounds [of 0 "length pop - 1" cw y] n by (cases pop) simp_all
  then show ?thesis using a
    by (auto simp: choices_def Let_def split: if_splits prod.splits)
qed

lemma choices_total:
  assumes "length ws = length pop" and "0 < fadd (last (cum_weights ws)) 0" and "pop \<noteq> []"
  shows "\<exists>x w'. choices pop ws w = Inr (x, w')"
proof -
  have "length (accumulate a xs) = length xs" for a xs
    by (induction xs arbitrary: a) simp_all
  then have l: "length (cum_weights ws) = length ws"
    by (simp add: cum_weights_def split: list.splits)
  then have "cum_weights ws \<noteq> []" using assms by auto
  then show ?thesis using assms l
    by (simp add: choices_def Let_def split: prod.splits)
qed

section \<open>Products\<close>

lemma random_random_range: "0 \<le> fst (random_random w)" "fst (random_random w) < 1"
proof -
  have "(of_nat (rnd w 0 mod 2 ^ 53) :: rat) < of_nat (2 ^ 53)"
    unfolding of_nat_less_iff by simp
  then show "fst (random_random w) < 1"
    by (simp add: random_random_def next_raw_def)
  show "0 \<le> fst (random_random w)"
    by (simp add: random_random_def next_raw_def)
qed

lemma fadd_mono: "a \<le> b \<Longrightarrow> c \<le> d \<Longrightarrow> fadd a c \<le> fadd b d"
  unfolding fadd_def by (intro fl_mono) simp

lemma fmul_mono: "0 \<le> a \<Longrightarrow> a \<le> b \<Longrightarrow> 0 \<le> c \<Longrightarrow> c \<le> d \<Longrightarrow> fmul a c \<le> fmul b d"
  unfolding fmul_def by (intro fl_mono mult_mono) simp_all

lemma fl_numeral: "numeral n \<le> (2::int) ^ 53 \<Longrightarrow> fl (numeral n) = numeral n"
  using fl_of_int [of "numeral n"] by simp

lemma fl_1: "fl 1 = 1"
  using fl_of_int [of 1] by simp

lemma round2_of_int:
  assumes "\<bar>m\<bar> \<le> 2 ^ 53"
  shows "round2 (of_int m) = of_int m"
proof -
  have "of_int m * (100::rat) = of_int (m * 100)" by simp
  then have "rne (of_int m * 100) = m * 100" using rne_of_int by metis
  then have "round2 (of_int m) = fl (of_int m)" by (simp add: round2_def)
  then show ?thesis using fl_of_int [OF assms] by simp
qed

lemma round2_numeral: "numeral n \<le> (2::int) ^ 53 \<Longrightarrow> round2 (numeral n) = numeral n"
  using round2_of_int [of "numeral n"] by simp

lemma uniform_price_range:
  "5 \<le> fst (uniform PRICE_MIN PRICE_MAX w)" "fst (uniform PRICE_MIN PRICE_MAX w) \<le> 1000"
proof -
  define r where "r = fst (random_random w)"
  have r: "0 \<le> r" "r \<le> 1" using random_random_range [of w] by (simp_all add: r_def)
  have u: "fst (uniform PRICE_MIN PRICE_MAX w) = fadd 5 (fmul 995 r)"
    by (simp add: uniform_def PRICE_MIN_def PRICE_MAX_def r_def fsub_def fl_numeral
        split: prod.splits)
  have "fmul 995 0 \<le> fmul 995 r" using r by (intro fmul_mono) simp_all
  then have lo: "0 \<le> fmul 995 r" by (simp add: fmul_def fl_0)
  have "fmul 995 r \<le> fmul 995 1" using r by (intro fmul_mono) simp_all
  then have hi: "fmul 995 r \<le> 995" by (simp add: fmul_def fl_numeral)
  have "fadd 5 0 \<le> fadd 5 (fmul 995 r)" using lo by (intro fadd_mono) simp_all
  then show "5 \<le> fst (uniform PRICE_MIN PRICE_MAX w)" by (simp add: u fadd_def fl_numeral)
  have "fadd 5 (fmul 995 r) \<le> fadd 5 995" using hi by (intro fadd_mono) simp_all
  then show "fst (uniform PRICE_MIN PRICE_MAX w) \<le> 1000" by (simp add: u fadd_def fl_numeral)
qed

lemma round2_price_range:
  assumes "5 \<le> u" and "u \<le> 1000"
  shows "5 \<le> round2 u" and "round2 u \<le> 1000"
proof -
  have "round2 5 \<le> round2 u" using assms(1) by (rule round2_mono)
  then show "5 \<le> round2 u" by (simp add: round2_numeral)
  have "round2 u \<le> round2 1000" using assms(2) by (rule round2_mono)
  then show "round2 u \<le> 1000" by (simp add: round2_numeral)
qed

lemma gen_product_Inr:
  assumes "gen_product pid w = Inr (p, w')"
  shows "product_id p = pid" and "1 \<le> p_category_id p" and "p_category_id p \<le> 12"
    and "5 \<le> price p" and "price p \<le> 1000" and "0 \<le> stock p"
  using assms uniform_price_range round2_price_range
  by (auto simp: gen_product_def and_then_eq_Inr Let_def NUM_CATEGORIES_def
      case_prod_unfold dest: randint_range)

lemma gen_product_total: "\<exists>p w'. gen_product pid w = Inr (p, w')"
  by (simp add: gen_product_def randint_def choice_def NUM_CATEGORIES_def Let_def
      split: prod.splits)

lemma gen_products_Inr:
  assumes "gen_products pids w = Inr (ps, w')"
  shows "map product_id ps = pids"
    and "\<forall>p \<in> set ps. 1 \<le> p_category_id p \<and> p_category_id p \<le> 12 \<and> 5 \<le> price p
           \<and> price p \<le> 1000 \<and> 0 \<le> stock p"
  using assms
proof (induction pids arbitrary: w ps)
  case Nil
  { case 1 then show ?case by simp }
  { case 2 then show ?case by simp }
next
  case (Cons pid pids)
  { case 1
    then show ?case
      using Cons.IH(1) gen_product_Inr(1)
      by (fastforce simp: and_then_eq_Inr case_prod_unfold) }
  { case 2
    then show ?case
      using Cons.IH(2) gen_product_Inr(2-6)
      by (fastforce simp: and_then_eq_Inr case_prod_unfold) }
qed

lemma gen_products_total: "\<exists>ps w'. gen_products pids w = Inr (ps, w')"
proof (induction pids arbitrary: w)
  case Nil
  then show ?case by simp
next
  case (Cons pid pids)
  obtain p w1 where 1: "gen_product pid w = Inr (p, w1)" using gen_product_total by blast
  obtain ps w2 where 2: "gen_products pids w1 = Inr (ps, w2)" using Cons by blast
  show ?case by (simp add: 1 2)
qed

section \<open>Constants of the script\<close>

lemma tier_weights_total:
  "0 < fadd (last (cum_weights [fl (5/10), fl (3/10), fl (15/100), fl (5/100)])) 0"
  by code_simp

lemma ship_weights_total:
  "0 < fadd (last (cum_weights [fl (8/10), fl (15/100), fl (5/100)])) 0"
  by code_simp

lemma item_weights_total:
  "0 < fadd (last (cum_weights [fl (6/10), fl (25/100), fl (1/10), fl (5/100)])) 0"
  by code_simp

lemma ymd2ord_values:
  "ymd2ord 2018 1 1 = 736695" "ymd2ord 2021 1 1 = 737791" "ymd2ord 2024 12 31 = 739251"
  by (simp_all add: ymd2ord_def days_before_year_def days_before_month_def is_leap_def)

lemma rand_date_Inr:
  assumes "rand_date y1 y2 w = Inr (d, w')"
  shows "ymd2ord y1 1 1 \<le> d" and "d \<le> ymd2ord y2 12 31"
  using assms
  by (auto simp: rand_date_def Let_def and_then_eq_Inr case_prod_unfold dest: randint_range)

lemma rand_date_total:
  "ymd2ord y1 1 1 \<le> ymd2ord y2 12 31 \<Longrightarrow> \<exists>d w'. rand_date y1 y2 w = Inr (d, w')"
  by (simp add: rand_date_def Let_def randint_def case_prod_unfold)

lemma num_values:
  "py_int (fmul (fl (2/100)) 1000) = 20"
  "py_int (fmul (fl (1/100)) 1000) = 10"
  "py_int (fmul (fl (1/100)) 1400) = 14"
  by code_simp+

section \<open>Customers\<close>

lemma sample_pool_props:
  assumes "k \<le> length pool" and "distinct pool"
  shows "length (fst (sample_pool pool k w)) = k
         \<and> distinct (fst (sample_pool pool k w))
         \<and> set (fst (sample_pool pool k w)) \<subseteq> set pool"
  using assms
proof (induction k arbitrary: pool w)
  case 0
  then show ?case by simp
next
  case (Suc k)
  define j where "j = fst (randbelow (length pool) w)"
  define w1 where "w1 = snd (randbelow (length pool) w)"
  define pool' where "pool' = take j pool @ drop (Suc j) pool"
  have "0 < length pool" using Suc.prems(1) by linarith
  then have j: "j < length pool" unfolding j_def by (rule randbelow_less)
  have p: "pool = take j pool @ pool ! j # drop (Suc j) pool"
    using j by (simp add: id_take_nth_drop)
  have d: "distinct (take j pool @ pool ! j # drop (Suc j) pool)"
    using Suc.prems(2) p by simp
  have d': "distinct pool'" and notin: "pool ! j \<notin> set pool'"
    using d by (auto simp: pool'_def)
  have sub: "set pool' \<subseteq> set pool"
    unfolding pool'_def using set_take_subset set_drop_subset by fastforce
  have len: "k \<le> length pool'" using Suc.prems(1) j by (simp add: pool'_def)
  note IH = Suc.IH [OF len d', of w1]
  have eq: "fst (sample_pool pool (Suc k) w) = pool ! j # fst (sample_pool pool' k w1)"
    by (simp add: j_def w1_def pool'_def case_prod_unfold Let_def)
  show ?case unfolding eq using IH notin sub j by auto
qed

lemma sample_Inr:
  assumes "sample pool k w = Inr (xs, w')" and "distinct pool"
  shows "int (length xs) = k" and "distinct xs" and "set xs \<subseteq> set pool"
proof -
  have k: "0 \<le> k" "nat k \<le> length pool" and xs: "xs = fst (sample_pool pool (nat k) w)"
    using assms(1) by (auto simp: sample_def split: if_splits)
  note p = sample_pool_props [OF k(2) assms(2), of w]
  show "int (length xs) = k" using p k by (simp add: xs)
  show "distinct xs" using p by (simp add: xs)
  show "set xs \<subseteq> set pool" using p by (simp add: xs)
qed

lemma sample_total:
  "0 \<le> k \<Longrightarrow> k \<le> int (length pool) \<Longrightarrow> \<exists>xs w'. sample pool k w = Inr (xs, w')"
  by (simp add: sample_def case_prod_unfold)

text \<open>A freshly generated customer.\<close>

lemma gen_customer_Inr:
  assumes "gen_customer today cid w = Inr (c, w')"
  shows "customer_id c = cid" and "total_spent c = 0"
    and "today - 70 * 365 \<le> date_of_birth c" and "date_of_birth c \<le> today - 18 * 365"
  using assms
  by (auto simp: gen_customer_def and_then_eq_Inr Let_def case_prod_unfold dest: randint_range)

lemma gen_customer_total: "\<exists>c w'. gen_customer today cid w = Inr (c, w')"
proof -
  have ch: "\<exists>x w'. choices TIERS [fl (5/10), fl (3/10), fl (15/100), fl (5/100)] w = Inr (x, w')" for w
    by (rule choices_total) (use tier_weights_total in \<open>simp_all add: TIERS_def\<close>)
  have rd: "\<exists>d w'. rand_date 2018 2024 w = Inr (d, w')" for w
    by (rule rand_date_total) (use ymd2ord_values in simp)
  have g: "\<exists>x w'. choice GENDERS w = Inr (x, w')" for w
    by (rule choice_total) (simp add: GENDERS_def)
  have r: "\<exists>x w'. randint (18 * 365) (70 * 365) w = Inr (x, w')" for w
    by (rule randint_total) simp
  obtain g1 w1 where 1: "choice GENDERS (snd (fake_name w)) = Inr (g1, w1)" using g by blast
  obtain d w2 where 2: "randint (18 * 365) (70 * 365) w1 = Inr (d, w2)" using r by blast
  define w3 where "w3 = snd (fake_address (snd (fake_phone_number (snd (fake_email w2)))))"
  obtain t w4 where 3: "choices TIERS [fl (5/10), fl (3/10), fl (15/100), fl (5/100)] w3 = Inr (t, w4)"
    using ch by blast
  obtain rg w5 where 4: "rand_date 2018 2024 w4 = Inr (rg, w5)" using rd by blast
  show ?thesis
    using 1 2 3 4 by (simp add: gen_customer_def Let_def case_prod_unfold w3_def)
qed

lemma gen_customers_Inr:
  assumes "gen_customers today cids w = Inr (cs, w')"
  shows "map customer_id cs = cids" and "\<forall>c \<in> set cs. total_spent c = 0"
  using assms
proof (induction cids arbitrary: w cs)
  case Nil
  { case 1 then show ?case by simp }
  { case 2 then show ?case by simp }
next
  case (Cons cid cids)
  { case 1
    then show ?case
      using Cons.IH(1) gen_customer_Inr(1)
      by (fastforce simp: and_then_eq_Inr case_prod_unfold) }
  { case 2
    then show ?case
      using Cons.IH(2) gen_customer_Inr(2)
      by (fastforce simp: and_then_eq_Inr case_prod_unfold) }
qed

lemma gen_customers_total: "\<exists>cs w'. gen_customers today cids w = Inr (cs, w')"
proof (induction cids arbitrary: w)
  case Nil
  then show ?case by simp
next
  case (Cons cid cids)
  obtain c w1 where 1: "gen_customer today cid w = Inr (c, w1)" using gen_customer_total by blast
  obtain cs w2 where 2: "gen_customers today cids w1 = Inr (cs, w2)" using Cons by blast
  show ?case by (simp add: 1 2)
qed

section \<open>Noise in the customer rows\<close>

lemma same_but_contact_refl: "same_but_contact c c"
  by (simp add: same_but_contact_def)

lemma same_but_contact_trans:
  "same_but_contact a b \<Longrightarrow> same_but_contact b c \<Longrightarrow> same_but_contact a c"
  by (simp add: same_but_contact_def)

lemma same_but_name_email_refl: "same_but_name_email c c"
  by (simp add: same_but_name_email_def)

lemma same_but_name_email_trans:
  "same_but_name_email a b \<Longrightarrow> same_but_name_email b c \<Longrightarrow> same_but_name_email a c"
  by (simp add: same_but_name_email_def)

lemma list_all2_update_refl:
  assumes "\<And>x. R x x" and "i < length xs" and "R (xs ! i) y"
  shows "list_all2 R xs (xs[i := y])"
  using assms by (auto simp: list_all2_conv_all_nth nth_list_update)

lemma set_none_same: "set_none col c = Inr c' \<Longrightarrow> same_but_contact c c'"
  by (auto simp: set_none_def same_but_contact_def split: if_splits)

lemma missing_loop_Inr:
  assumes "missing_loop idxs cs w = Inr (cs', w')"
  shows "list_all2 same_but_contact cs cs'"
  using assms
proof (induction idxs arbitrary: cs w)
  case Nil
  then show ?case by (simp add: list_all2_refl same_but_contact_refl)
next
  case (Cons idx idxs)
  from Cons.prems obtain col w1 c1 where
    i: "idx < length cs" and s: "set_none col (cs ! idx) = Inr c1" and
    r: "missing_loop idxs (cs[idx := c1]) w1 = Inr (cs', w')"
    by (auto simp: and_then_eq_Inr case_prod_unfold split: if_splits)
  have "list_all2 same_but_contact cs (cs[idx := c1])"
    using i set_none_same [OF s] by (intro list_all2_update_refl same_but_contact_refl)
  moreover have "list_all2 same_but_contact (cs[idx := c1]) cs'" using Cons.IH [OF r] .
  ultimately show ?case
    using list_all2_trans [of same_but_contact same_but_contact same_but_contact]
      same_but_contact_trans by blast
qed

lemma missing_loop_total:
  assumes "\<forall>i \<in> set idxs. i < length cs"
  shows "\<exists>cs' w'. missing_loop idxs cs w = Inr (cs', w')"
  using assms
proof (induction idxs arbitrary: cs w)
  case Nil
  then show ?case by simp
next
  case (Cons idx idxs)
  obtain col w1 where c: "choice [4, 5, 6 :: int] w = Inr (col, w1)"
    using choice_total [of "[4, 5, 6 :: int]" w] by auto
  have "col \<in> set [4, 5, 6]" using choice_mem [OF c] .
  then obtain c1 where s: "set_none col (cs ! idx) = Inr c1"
    by (auto simp: set_none_def)
  have "\<forall>i \<in> set idxs. i < length (cs[idx := c1])" using Cons.prems by simp
  from Cons.IH [OF this] obtain cs' w' where
    "missing_loop idxs (cs[idx := c1]) w1 = Inr (cs', w')" by blast
  then show ?case using Cons.prems c s by simp
qed

lemma dup_loop_step:
  assumes p: "dup_loop (idx # idxs) cs w = Inr (cs', w')"
  shows "\<exists>cs1 w1. dup_loop idxs cs1 w1 = Inr (cs', w')
      \<and> list_all2 same_but_name_email cs cs1
      \<and> (\<forall>i < length cs. i \<noteq> idx \<longrightarrow> cs1 ! i = cs ! i)
      \<and> customer_name ` set cs1 \<subseteq> customer_name ` set cs
      \<and> email ` set cs1 \<subseteq> email ` set cs"
proof -
  define R where "R = same_but_name_email"
  from p obtain src w0 where
    c: "choice cs w = Inr (src, w0)" and i: "idx < length cs"
    by (auto simp: and_then_eq_Inr case_prod_unfold split: if_splits)
  have src: "src \<in> set cs" using choice_mem [OF c] .
  define a where "a = cs[idx := (cs ! idx)\<lparr>customer_name := customer_name src\<rparr>]"
  define b where "b = a[idx := (a ! idx)\<lparr>email := email src\<rparr>]"
  define w1 where "w1 = snd (random_random w0)"
  have ra: "list_all2 R cs a" unfolding a_def R_def
    using i by (intro list_all2_update_refl same_but_name_email_refl)
      (simp_all add: same_but_name_email_def)
  have rb: "list_all2 R cs b" unfolding b_def a_def R_def
    using i by (simp, intro list_all2_update_refl same_but_name_email_refl)
      (simp_all add: same_but_name_email_def)
  have fa: "\<forall>j < length cs. j \<noteq> idx \<longrightarrow> a ! j = cs ! j" by (simp add: a_def)
  have fb: "\<forall>j < length cs. j \<noteq> idx \<longrightarrow> b ! j = cs ! j" by (simp add: b_def a_def)
  have cidx: "cs ! idx \<in> set cs" using i by simp
  have sa: "set a \<subseteq> insert ((cs ! idx)\<lparr>customer_name := customer_name src\<rparr>) (set cs)"
    unfolding a_def by (rule set_update_subset_insert)
  have sb: "set b \<subseteq> insert ((cs ! idx)\<lparr>customer_name := customer_name src, email := email src\<rparr>)
      (set cs)"
    using i unfolding b_def a_def by (simp add: set_update_subset_insert)
  have na: "customer_name ` set a \<subseteq> customer_name ` set cs"
    using sa src cidx by (auto simp: image_iff dest!: subsetD)
  have ea: "email ` set a \<subseteq> email ` set cs"
    using sa src cidx by (auto simp: image_iff dest!: subsetD)
  have nb: "customer_name ` set b \<subseteq> customer_name ` set cs"
    using sb src cidx by (auto simp: image_iff dest!: subsetD)
  have eb: "email ` set b \<subseteq> email ` set cs"
    using sb src cidx by (auto simp: image_iff dest!: subsetD)
  have "dup_loop idxs a w1 = Inr (cs', w') \<or> dup_loop idxs b w1 = Inr (cs', w')"
    using p c i by (auto simp: Let_def case_prod_unfold a_def b_def w1_def split: if_splits)
  then show ?thesis using ra rb fa fb na ea nb eb unfolding R_def by blast
qed

lemma dup_loop_Inr:
  assumes "dup_loop idxs cs w = Inr (cs', w')"
  shows "list_all2 same_but_name_email cs cs'"
    and "\<forall>i < length cs. i \<notin> set idxs \<longrightarrow> cs' ! i = cs ! i"
    and "customer_name ` set cs' \<subseteq> customer_name ` set cs"
    and "email ` set cs' \<subseteq> email ` set cs"
  using assms
proof (induction idxs arbitrary: cs w)
  case Nil
  { case 1 then show ?case by (simp add: list_all2_refl same_but_name_email_refl) }
  { case 2 then show ?case by simp }
  { case 3 then show ?case by simp }
  { case 4 then show ?case by simp }
next
  case (Cons idx idxs)
  define R where "R = same_but_name_email"
  { case 1
    from dup_loop_step [OF 1] obtain cs1 w1 where
      d: "dup_loop idxs cs1 w1 = Inr (cs', w')" and r: "list_all2 R cs cs1"
      unfolding R_def by blast
    have "list_all2 R cs1 cs'" using Cons.IH(1) [OF d] by (simp add: R_def)
    then show ?case
      using r list_all2_trans [of R R R] same_but_name_email_trans
      unfolding R_def by blast }
  { case 2
    from dup_loop_step [OF 2] obtain cs1 w1 where
      d: "dup_loop idxs cs1 w1 = Inr (cs', w')" and r: "list_all2 R cs cs1" and
      f: "\<forall>i < length cs. i \<noteq> idx \<longrightarrow> cs1 ! i = cs ! i"
      unfolding R_def by blast
    have l: "length cs1 = length cs" using r by (simp add: list_all2_lengthD)
    show ?case using Cons.IH(2) [OF d] f l by auto }
  { case 3
    from dup_loop_step [OF 3] obtain cs1 w1 where
      d: "dup_loop idxs cs1 w1 = Inr (cs', w')" and
      n: "customer_name ` set cs1 \<subseteq> customer_name ` set cs" by blast
    show ?case using Cons.IH(3) [OF d] n by blast }
  { case 4
    from dup_loop_step [OF 4] obtain cs1 w1 where
      d: "dup_loop idxs cs1 w1 = Inr (cs', w')" and
      n: "email ` set cs1 \<subseteq> email ` set cs" by blast
    show ?case using Cons.IH(4) [OF d] n by blast }
qed

lemma dup_loop_total:
  assumes "\<forall>i \<in> set idxs. i < length cs"
  shows "\<exists>cs' w'. dup_loop idxs cs w = Inr (cs', w')"
  using assms
proof (induction idxs arbitrary: cs w)
  case Nil
  then show ?case by simp
next
  case (Cons idx idxs)
  have i: "idx < length cs" using Cons.prems by simp
  then have "cs \<noteq> []" by auto
  then obtain src w0 where c: "choice cs w = Inr (src, w0)" using choice_total by blast
  define a where "a = cs[idx := (cs ! idx)\<lparr>customer_name := customer_name src\<rparr>]"
  define b where "b = a[idx := (a ! idx)\<lparr>email := email src\<rparr>]"
  have "\<forall>i \<in> set idxs. i < length a" "\<forall>i \<in> set idxs. i < length b"
    using Cons.prems by (simp_all add: a_def b_def)
  then have "\<exists>cs' w'. dup_loop idxs a w1 = Inr (cs', w')"
    "\<exists>cs' w'. dup_loop idxs b w1 = Inr (cs', w')" for w1
    using Cons.IH by blast+
  then show ?case using c i by (simp add: Let_def case_prod_unfold a_def b_def)
qed

section \<open>The customer population\<close>

lemma num_missing_1000: "length cs = 1000 \<Longrightarrow> num_missing cs = 20"
  using num_values by (simp add: num_missing_def)

lemma num_dup_1000: "length cs = 1000 \<Longrightarrow> num_dup cs = 10"
  using num_values by (simp add: num_dup_def)

lemma add_missing_Inr:
  assumes "add_missing cs w = Inr (cs', w')"
  shows "list_all2 same_but_contact cs cs'"
  using assms missing_loop_Inr
  by (auto simp: add_missing_def and_then_eq_Inr case_prod_unfold)

lemma add_missing_total:
  assumes "length cs = 1000"
  shows "\<exists>cs' w'. add_missing cs w = Inr (cs', w')"
proof -
  obtain idxs w1 where s: "sample [0 ..< length cs] (num_missing cs) w = Inr (idxs, w1)"
    using sample_total [of "num_missing cs" "[0 ..< length cs]" w] assms
    by (auto simp: num_missing_1000)
  have "set idxs \<subseteq> set [0 ..< length cs]" using sample_Inr(3) [OF s] by simp
  then have "\<forall>i \<in> set idxs. i < length cs" by auto
  from missing_loop_total [OF this, of w1] show ?thesis by (simp add: add_missing_def s)
qed

lemma add_duplicates_Inr:
  assumes "add_duplicates cs w = Inr (cs', w')"
  shows "\<exists>idxs. int (length idxs) = num_dup cs \<and> distinct idxs
           \<and> (\<forall>i \<in> set idxs. i < length cs)
           \<and> (\<forall>i < length cs. i \<notin> set idxs \<longrightarrow> cs' ! i = cs ! i)"
    and "list_all2 same_but_name_email cs cs'"
    and "customer_name ` set cs' \<subseteq> customer_name ` set cs"
    and "email ` set cs' \<subseteq> email ` set cs"
proof -
  from assms obtain idxs w1 where
    s: "sample [0 ..< length cs] (num_dup cs) w = Inr (idxs, w1)" and
    d: "dup_loop idxs cs w1 = Inr (cs', w')"
    by (auto simp: add_duplicates_def and_then_eq_Inr case_prod_unfold)
  have "set idxs \<subseteq> set [0 ..< length cs]" using sample_Inr(3) [OF s] by simp
  then have "\<forall>i \<in> set idxs. i < length cs" by auto
  then show "\<exists>idxs. int (length idxs) = num_dup cs \<and> distinct idxs
           \<and> (\<forall>i \<in> set idxs. i < length cs)
           \<and> (\<forall>i < length cs. i \<notin> set idxs \<longrightarrow> cs' ! i = cs ! i)"
    using sample_Inr(1,2) [OF s] dup_loop_Inr(2) [OF d] by auto
  show "list_all2 same_but_name_email cs cs'" using dup_loop_Inr(1) [OF d] .
  show "customer_name ` set cs' \<subseteq> customer_name ` set cs" using dup_loop_Inr(3) [OF d] .
  show "email ` set cs' \<subseteq> email ` set cs" using dup_loop_Inr(4) [OF d] .
qed

lemma add_duplicates_total:
  assumes "length cs = 1000"
  shows "\<exists>cs' w'. add_duplicates cs w = Inr (cs', w')"
proof -
  obtain idxs w1 where s: "sample [0 ..< length cs] (num_dup cs) w = Inr (idxs, w1)"
    using sample_total [of "num_dup cs" "[0 ..< length cs]" w] assms
    by (auto simp: num_dup_1000)
  have "set idxs \<subseteq> set [0 ..< length cs]" using sample_Inr(3) [OF s] by simp
  then have "\<forall>i \<in> set idxs. i < length cs" by auto
  from dup_loop_total [OF this, of w1] show ?thesis by (simp add: add_duplicates_def s)
qed

lemma list_all2_map_eq: "list_all2 (\<lambda>x y. f y = f x) xs ys \<Longrightarrow> map f ys = map f xs"
  by (induction xs ys rule: list_all2_induct) simp_all

lemma same_but_contact_ids:
  "list_all2 same_but_contact cs cs' \<Longrightarrow> map customer_id cs' = map customer_id cs"
  by (rule list_all2_map_eq) (auto simp: same_but_contact_def elim: list_all2_mono)

lemma same_but_contact_totals:
  "list_all2 same_but_contact cs cs' \<Longrightarrow> map total_spent cs' = map total_spent cs"
  by (rule list_all2_map_eq) (auto simp: same_but_contact_def elim: list_all2_mono)

lemma same_but_name_email_ids:
  "list_all2 same_but_name_email cs cs' \<Longrightarrow> map customer_id cs' = map customer_id cs"
  by (rule list_all2_map_eq) (auto simp: same_but_name_email_def elim: list_all2_mono)

lemma same_but_name_email_totals:
  "list_all2 same_but_name_email cs cs' \<Longrightarrow> map total_spent cs' = map total_spent cs"
  by (rule list_all2_map_eq) (auto simp: same_but_name_email_def elim: list_all2_mono)

lemma gen_all_customers_Inr:
  assumes "gen_all_customers today w = Inr (cs, w')"
  shows "map customer_id cs = [1 .. NUM_CUSTOMERS]" and "\<forall>c \<in> set cs. total_spent c = 0"
proof -
  from assms obtain cs0 w0 cs1 w1 where
    g: "gen_customers today [1 .. NUM_CUSTOMERS] w = Inr (cs0, w0)" and
    m: "add_missing cs0 w0 = Inr (cs1, w1)" and
    d: "add_duplicates cs1 w1 = Inr (cs, w')"
    by (auto simp: gen_all_customers_def and_then_eq_Inr case_prod_unfold)
  note r1 = add_missing_Inr [OF m]
  note r2 = add_duplicates_Inr(2) [OF d]
  show "map customer_id cs = [1 .. NUM_CUSTOMERS]"
    using gen_customers_Inr(1) [OF g] same_but_contact_ids [OF r1]
      same_but_name_email_ids [OF r2] by simp
  have "map total_spent cs = map total_spent cs0"
    using same_but_contact_totals [OF r1] same_but_name_email_totals [OF r2] by simp
  then have "set (map total_spent cs) = set (map total_spent cs0)" by simp
  then have "total_spent ` set cs = total_spent ` set cs0" by simp
  then show "\<forall>c \<in> set cs. total_spent c = 0"
    using gen_customers_Inr(2) [OF g] by (metis imageE imageI)
qed

lemma length_upto_NUM_CUSTOMERS: "length [1 .. NUM_CUSTOMERS] = 1000"
  by (simp add: NUM_CUSTOMERS_def)

lemma gen_all_customers_total: "\<exists>cs w'. gen_all_customers today w = Inr (cs, w')"
proof -
  obtain cs0 w0 where g: "gen_customers today [1 .. NUM_CUSTOMERS] w = Inr (cs0, w0)"
    using gen_customers_total by blast
  have "length (map customer_id cs0) = 1000"
    using gen_customers_Inr(1) [OF g] length_upto_NUM_CUSTOMERS by simp
  then have l0: "length cs0 = 1000" by simp
  obtain cs1 w1 where m: "add_missing cs0 w0 = Inr (cs1, w1)"
    using add_missing_total [OF l0] by blast
  have l1: "length cs1 = 1000"
    using add_missing_Inr [OF m] l0 by (simp add: list_all2_lengthD)
  obtain cs2 w2 where d: "add_duplicates cs1 w1 = Inr (cs2, w2)"
    using add_duplicates_total [OF l1] by blast
  show ?thesis by (simp add: gen_all_customers_def g m d)
qed

section \<open>The duplicate-identity step\<close>

lemma fl_half: "fl (1/2) = 1/2"
  using fl_representable [of 1 "- 1"] by (simp add: power_int_minus_divide)

section \<open>Shipments\<close>

lemma rand_shipment_date_Inr:
  assumes "rand_shipment_date (Some od) w = Inr (r, w')"
  shows "case r of None \<Rightarrow> True | Some d \<Rightarrow> od \<le> d \<and> d \<le> od + 20"
proof -
  from assms obtain a w1 b w2 add where
    a: "randint 0 10 w = Inr (a, w1)" and b: "randint 11 20 w1 = Inr (b, w2)" and
    c: "choices [Some a, Some b, None] [fl (8/10), fl (15/100), fl (5/100)] w2 = Inr (add, w')" and
    r: "r = (case add of None \<Rightarrow> None | Some k \<Rightarrow> Some (od + k))"
    by (auto simp: rand_shipment_date_def and_then_eq_Inr case_prod_unfold split: option.splits)
  have "add \<in> set [Some a, Some b, None]" using choices_mem [OF c] .
  then show ?thesis using randint_range [OF a] randint_range [OF b] r by auto
qed

lemma rand_shipment_date_None: "rand_shipment_date None w = Inr (None, w)"
  by (simp add: rand_shipment_date_def)

lemma rand_shipment_date_total: "\<exists>r w'. rand_shipment_date d w = Inr (r, w')"
proof (cases d)
  case None
  then show ?thesis by (simp add: rand_shipment_date_None)
next
  case (Some od)
  obtain a w1 where a: "randint 0 10 w = Inr (a, w1)" using randint_total [of 0 10 w] by auto
  obtain b w2 where b: "randint 11 20 w1 = Inr (b, w2)" using randint_total [of 11 20 w1] by auto
  have "\<exists>x w'. choices [Some a, Some b, None] [fl (8/10), fl (15/100), fl (5/100)] w2 = Inr (x, w')"
    by (rule choices_total) (use ship_weights_total in simp_all)
  then obtain add w3 where
    c: "choices [Some a, Some b, None] [fl (8/10), fl (15/100), fl (5/100)] w2 = Inr (add, w3)"
    by blast
  show ?thesis using Some a b c by (cases add) (simp_all add: rand_shipment_date_def)
qed

lemma delivered_if:
  "(if shipped \<noteq> None then rand_shipment_date shipped w else Inr (None, w))
     = rand_shipment_date shipped w"
  by (simp add: rand_shipment_date_None)

lemma gen_shipment_unfold:
  "gen_shipment oid odate w =
     (if fst (random_random w) < fl (8/10)
      then and_then (rand_shipment_date (Some odate) (snd (random_random w))) (\<lambda>p1.
           and_then (rand_shipment_date (fst p1) (snd p1)) (\<lambda>p2.
           and_then (choice carrier_pool (snd p2)) (\<lambda>p3.
             Inr ([\<lparr>shipment_id = None, s_order_id = oid, shipped_date = fst p1,
                    delivery_date = fst p2, carrier = fst p3,
                    tracking_number = fst (fake_bothify ''TRACK-#####'' (snd p3))\<rparr>],
                  snd (fake_bothify ''TRACK-#####'' (snd p3))))))
      else Inr ([], snd (random_random w)))"
  unfolding gen_shipment_def Let_def case_prod_unfold delivered_if ..

lemma gen_shipment_Inr:
  assumes "gen_shipment oid odate w = Inr (ships, w')"
  shows "length ships \<le> 1" and "\<forall>s \<in> set ships. good_shipment oid odate s"
proof -
  have "ships = [] \<or> (\<exists>s. ships = [s] \<and> good_shipment oid odate s)"
  proof (cases "fst (random_random w) < fl (8/10)")
    case False
    then show ?thesis using assms unfolding gen_shipment_unfold by simp
  next
    case True
    define w0 where "w0 = snd (random_random w)"
    from assms True obtain shipped w1 delivered w2 carr w3 where
      s: "rand_shipment_date (Some odate) w0 = Inr (shipped, w1)" and
      d: "rand_shipment_date shipped w1 = Inr (delivered, w2)" and
      c: "choice carrier_pool w2 = Inr (carr, w3)" and
      e: "ships = [\<lparr>shipment_id = None, s_order_id = oid, shipped_date = shipped,
                    delivery_date = delivered, carrier = carr,
                    tracking_number = fst (fake_bothify ''TRACK-#####'' w3)\<rparr>]"
      unfolding gen_shipment_unfold w0_def by (auto simp: and_then_eq_Inr)
    note s' = rand_shipment_date_Inr [OF s]
    have "good_shipment oid odate (hd ships)"
    proof (cases shipped)
      case None
      then have "delivered = None" using d by (simp add: rand_shipment_date_None)
      then show ?thesis using None choice_mem [OF c]
        by (simp add: e good_shipment_def dates_ordered_def)
    next
      case (Some sd)
      then have "rand_shipment_date (Some sd) w1 = Inr (delivered, w2)" using d by simp
      note d' = rand_shipment_date_Inr [OF this]
      show ?thesis using Some s' d' choice_mem [OF c]
        by (auto simp: e good_shipment_def dates_ordered_def split: option.splits)
    qed
    then show ?thesis using e by simp
  qed
  then show "length ships \<le> 1" and "\<forall>s \<in> set ships. good_shipment oid odate s" by auto
qed

lemma gen_shipment_total: "\<exists>ships w'. gen_shipment oid odate w = Inr (ships, w')"
proof (cases "fst (random_random w) < fl (8/10)")
  case False
  then show ?thesis unfolding gen_shipment_unfold by simp
next
  case True
  define w0 where "w0 = snd (random_random w)"
  obtain shipped w1 where s: "rand_shipment_date (Some odate) w0 = Inr (shipped, w1)"
    using rand_shipment_date_total by blast
  obtain delivered w2 where d: "rand_shipment_date shipped w1 = Inr (delivered, w2)"
    using rand_shipment_date_total by blast
  obtain carr w3 where c: "choice carrier_pool w2 = Inr (carr, w3)"
    using choice_total [of carrier_pool w2] by (auto simp: carrier_pool_def)
  show ?thesis
    using True s d c unfolding gen_shipment_unfold w0_def by simp
qed

section \<open>Order items\<close>

lemma item_loop_Inr:
  assumes "item_loop n products oid ino tot w = Inr ((items, tot'), w')"
  shows "length items = n"
    and "map item_no items = map (\<lambda>k. ino + int k) [0 ..< n]"
    and "\<forall>i \<in> set items. good_item products oid i"
    and "tot' = foldl fadd tot (map line_total items)"
  using assms
proof (induction n arbitrary: ino tot w items)
  case 0
  { case 1 then show ?case by simp }
  { case 2 then show ?case by simp }
  { case 3 then show ?case by simp }
  { case 4 then show ?case by simp }
next
  case (Suc n)
  have step: "\<exists>p qty d rest w1.
      p \<in> set products \<and> 1 \<le> qty \<and> qty \<le> 5 \<and> d \<in> set discount_pool
      \<and> item_loop n products oid (ino + 1)
            (fadd tot (round2 (fmul (fmul (price p) (of_int qty)) (fsub 1 d)))) w1
          = Inr ((rest, tot'), w')
      \<and> items = \<lparr>i_order_id = oid, item_no = ino, i_product_id = product_id p,
                   quantity = qty, unit_price = price p,
                   line_total = round2 (fmul (fmul (price p) (of_int qty)) (fsub 1 d))\<rparr> # rest"
    if "item_loop (Suc n) products oid ino tot w = Inr ((items, tot'), w')"
    for ino tot w items
  proof -
    from that obtain p w1 qty w2 d w3 rest where
      p: "choice products w = Inr (p, w1)" and q: "randint 1 5 w1 = Inr (qty, w2)" and
      d: "choice discount_pool w2 = Inr (d, w3)" and
      r: "item_loop n products oid (ino + 1)
            (fadd tot (round2 (fmul (fmul (price p) (of_int qty)) (fsub 1 d)))) w3
          = Inr ((rest, tot'), w')" and
      i: "items = \<lparr>i_order_id = oid, item_no = ino, i_product_id = product_id p,
                   quantity = qty, unit_price = price p,
                   line_total = round2 (fmul (fmul (price p) (of_int qty)) (fsub 1 d))\<rparr> # rest"
      by (auto simp: and_then_eq_Inr Let_def case_prod_unfold)
    show ?thesis
      using choice_mem [OF p] randint_range [OF q] choice_mem [OF d] r i by blast
  qed
  { case 1
    from step [OF 1] obtain p :: product_row and qty d rest w1 where
      r: "item_loop n products oid (ino + 1)
            (fadd tot (round2 (fmul (fmul (price p) (of_int qty)) (fsub 1 d)))) w1
          = Inr ((rest, tot'), w')" and
      i: "items = \<lparr>i_order_id = oid, item_no = ino, i_product_id = product_id p,
                   quantity = qty, unit_price = price p,
                   line_total = round2 (fmul (fmul (price p) (of_int qty)) (fsub 1 d))\<rparr> # rest"
      by blast
    show ?case using Suc.IH(1) [OF r] i by simp }
  { case 2
    from step [OF 2] obtain p :: product_row and qty d rest w1 where
      r: "item_loop n products oid (ino + 1)
            (fadd tot (round2 (fmul (fmul (price p) (of_int qty)) (fsub 1 d)))) w1
          = Inr ((rest, tot'), w')" and
      i: "items = \<lparr>i_order_id = oid, item_no = ino, i_product_id = product_id p,
                   quantity = qty, unit_price = price p,
                   line_total = round2 (fmul (fmul (price p) (of_int qty)) (fsub 1 d))\<rparr> # rest"
      by blast
    have "map (\<lambda>k. ino + int k) [0 ..< Suc n] = ino # map (\<lambda>k. ino + 1 + int k) [0 ..< n]"
      by (simp add: upt_conv_Cons del: upt_Suc) (simp add: map_Suc_upt [symmetric] del: upt_Suc)
    then show ?case using Suc.IH(2) [OF r] i by simp }
  { case 3
    from step [OF 3] obtain p :: product_row and qty d rest w1 where
      r: "item_loop n products oid (ino + 1)
            (fadd tot (round2 (fmul (fmul (price p) (of_int qty)) (fsub 1 d)))) w1
          = Inr ((rest, tot'), w')" and
      i: "items = \<lparr>i_order_id = oid, item_no = ino, i_product_id = product_id p,
                   quantity = qty, unit_price = price p,
                   line_total = round2 (fmul (fmul (price p) (of_int qty)) (fsub 1 d))\<rparr> # rest"
      and g: "p \<in> set products" "1 \<le> qty" "qty \<le> 5" "d \<in> set discount_pool" by blast
    have "good_item products oid (hd items)"
      using g unfolding good_item_def i by auto
    then show ?case using Suc.IH(3) [OF r] i by simp }
  { case 4
    from step [OF 4] obtain p :: product_row and qty d rest w1 where
      r: "item_loop n products oid (ino + 1)
            (fadd tot (round2 (fmul (fmul (price p) (of_int qty)) (fsub 1 d)))) w1
          = Inr ((rest, tot'), w')" and
      i: "items = \<lparr>i_order_id = oid, item_no = ino, i_product_id = product_id p,
                   quantity = qty, unit_price = price p,
                   line_total = round2 (fmul (fmul (price p) (of_int qty)) (fsub 1 d))\<rparr> # rest"
      by blast
    show ?case using Suc.IH(4) [OF r] i by simp }
qed

lemma item_loop_total:
  assumes "products \<noteq> []"
  shows "\<exists>r w'. item_loop n products oid ino tot w = Inr (r, w')"
proof (induction n arbitrary: ino tot w)
  case 0
  then show ?case by simp
next
  case (Suc n)
  obtain p w1 where p: "choice products w = Inr (p, w1)" using choice_total [OF assms] by blast
  obtain qty w2 where q: "randint 1 5 w1 = Inr (qty, w2)" using randint_total [of 1 5 w1] by auto
  obtain d w3 where d: "choice discount_pool w2 = Inr (d, w3)"
    using choice_total [of discount_pool w2] by (auto simp: discount_pool_def)
  from Suc [of "ino + 1" "fadd tot (round2 (fmul (fmul (price p) (of_int qty)) (fsub 1 d)))" w3]
  obtain r w4 where "item_loop n products oid (ino + 1)
      (fadd tot (round2 (fmul (fmul (price p) (of_int qty)) (fsub 1 d)))) w3 = Inr (r, w4)"
    by blast
  then show ?case using p q d by (simp add: Let_def case_prod_unfold)
qed

section \<open>The order loops\<close>

lemma choices_items_total:
  "\<exists>x w'. choices [1, 2, 3, 4 :: nat] [fl (6/10), fl (25/100), fl (1/10), fl (5/100)] w = Inr (x, w')"
  by (rule choices_total) (use item_weights_total in simp_all)

lemma gen_order_step:
  assumes "gen_order products st w = Inr (st', w')"
  shows "base_step products st st'"
proof -
  from assms obtain cust w1 odate w2 promo w3 n w4 items tot w5 ships where
    c: "randint 1 NUM_CUSTOMERS w = Inr (cust, w1)" and
    d: "rand_order_date w1 = Inr (odate, w2)" and
    p: "choice promo_pool w2 = Inr (promo, w3)" and
    n: "choices [1, 2, 3, 4] [fl (6/10), fl (25/100), fl (1/10), fl (5/100)] w3 = Inr (n, w4)" and
    i: "item_loop n products (order_id_seq st) 1 0 w4 = Inr ((items, tot), w5)" and
    s: "gen_shipment (order_id_seq st) odate w5 = Inr (ships, w')" and
    e: "st' = \<lparr>orders = orders st @ [\<lparr>order_id = order_id_seq st, o_customer_id = cust,
                                      order_date = odate, order_total = round2 tot,
                                      promo_code = promo\<rparr>],
               order_items = order_items st @ items,
               shipments = shipments st @ ships,
               order_id_seq = order_id_seq st + 1\<rparr>"
    unfolding gen_order_def by (auto simp: and_then_eq_Inr Let_def case_prod_unfold)
  define ord where "ord = \<lparr>order_id = order_id_seq st, o_customer_id = cust,
      order_date = odate, order_total = round2 tot, promo_code = promo\<rparr>"
  have nn: "n \<in> set [1, 2, 3, 4]" using choices_mem [OF n] .
  note il = item_loop_Inr [OF i]
  have len: "1 \<le> length items" "length items \<le> 4" using nn il(1) by auto
  have tot: "order_total ord = round2 (float_sum (map line_total items))"
    using il(4) by (simp add: ord_def float_sum_def)
  have nos: "map item_no items = map (\<lambda>k. 1 + int k) [0 ..< length items]"
    using il(2) il(1) by simp
  have gi: "list_all (good_item products (order_id_seq st)) items"
    using il(3) by (simp add: list_all_iff)
  have gs: "length ships \<le> 1"
    "list_all (good_shipment (order_id_seq st) (order_date ord)) ships"
    using gen_shipment_Inr [OF s] by (simp_all add: list_all_iff ord_def)
  have o: "order_id ord = order_id_seq st" "1 \<le> o_customer_id ord"
    "o_customer_id ord \<le> NUM_CUSTOMERS" "promo_code ord \<in> set promo_pool"
    using randint_range [OF c] choice_mem [OF p] by (simp_all add: ord_def)
  have st: "orders st' = orders st @ [ord]" "order_items st' = order_items st @ items"
    "shipments st' = shipments st @ ships" "order_id_seq st' = order_id_seq st + 1"
    by (simp_all add: e ord_def)
  show ?thesis unfolding base_step_def
    using st o tot len nos gi gs by blast
qed

lemma gen_order_total:
  assumes "products \<noteq> []"
  shows "\<exists>st' w'. gen_order products st w = Inr (st', w')"
proof -
  obtain cust w1 where c: "randint 1 NUM_CUSTOMERS w = Inr (cust, w1)"
    using randint_total [of 1 NUM_CUSTOMERS w] by (auto simp: NUM_CUSTOMERS_def)
  obtain odate w2 where d: "rand_order_date w1 = Inr (odate, w2)"
    unfolding rand_order_date_def
    using rand_date_total [of 2021 2024 w1] ymd2ord_values by auto
  obtain promo w3 where p: "choice promo_pool w2 = Inr (promo, w3)"
    using choice_total [of promo_pool w2] by (auto simp: promo_pool_def)
  obtain n w4 where
    n: "choices [1, 2, 3, 4 :: nat] [fl (6/10), fl (25/100), fl (1/10), fl (5/100)] w3
          = Inr (n, w4)"
    using choices_items_total by blast
  obtain r w5 where i: "item_loop n products (order_id_seq st) 1 0 w4 = Inr (r, w5)"
    using item_loop_total [OF assms] by blast
  obtain ships w6 where s: "gen_shipment (order_id_seq st) odate w5 = Inr (ships, w6)"
    using gen_shipment_total by blast
  show ?thesis unfolding gen_order_def
    using c d p n i s by (simp add: Let_def case_prod_unfold)
qed

lemma dup_order_step:
  assumes "dup_order products st w = Inr (st', w')"
  shows "dup_step products st st'"
proof -
  from assms obtain row w1 prod w2 ships where
    r: "choice (orders st) w = Inr (row, w1)" and
    p: "choice products w1 = Inr (prod, w2)" and
    s: "gen_shipment (order_id_seq st) (order_date row) w2 = Inr (ships, w')" and
    e: "st' = \<lparr>orders = orders st @ [\<lparr>order_id = order_id_seq st,
                    o_customer_id = o_customer_id row, order_date = order_date row,
                    order_total = round2 (fmul (price prod) 1), promo_code = promo_code row\<rparr>],
               order_items = order_items st @
                    [\<lparr>i_order_id = order_id_seq st, item_no = 1, i_product_id = product_id prod,
                      quantity = 1, unit_price = price prod,
                      line_total = round2 (fmul (price prod) 1)\<rparr>],
               shipments = shipments st @ ships,
               order_id_seq = order_id_seq st + 1\<rparr>"
    unfolding dup_order_def by (auto simp: and_then_eq_Inr Let_def case_prod_unfold)
  have gs: "length ships \<le> 1"
    "list_all (good_shipment (order_id_seq st) (order_date row)) ships"
    using gen_shipment_Inr [OF s] by (simp_all add: list_all_iff)
  show ?thesis unfolding dup_step_def
    using choice_mem [OF r] choice_mem [OF p] gs
    by (intro exI [of _ row] exI [of _ prod] exI [of _ ships]) (simp add: e)
qed

lemma dup_order_total:
  assumes "products \<noteq> []" and "orders st \<noteq> []"
  shows "\<exists>st' w'. dup_order products st w = Inr (st', w')"
proof -
  obtain row w1 where r: "choice (orders st) w = Inr (row, w1)"
    using choice_total [OF assms(2)] by blast
  obtain prod w2 where p: "choice products w1 = Inr (prod, w2)"
    using choice_total [OF assms(1)] by blast
  obtain ships w3 where s: "gen_shipment (order_id_seq st) (order_date row) w2 = Inr (ships, w3)"
    using gen_shipment_total by blast
  show ?thesis unfolding dup_order_def using r p s by (simp add: Let_def)
qed

text \<open>A property kept by every pass is kept by the loops.\<close>

lemma order_loop_invariant:
  assumes "\<And>s s'. P s \<Longrightarrow> base_step products s s' \<Longrightarrow> P s'"
    and "P st" and "order_loop n products st w = Inr (st', w')"
  shows "P st'"
  using assms(2,3)
proof (induction n arbitrary: st w)
  case 0
  then show ?case by simp
next
  case (Suc n)
  from Suc.prems(2) obtain s1 w1 where
    g: "gen_order products st w = Inr (s1, w1)" and
    l: "order_loop n products s1 w1 = Inr (st', w')"
    by (auto simp: and_then_eq_Inr case_prod_unfold)
  have "P s1" using assms(1) [OF Suc.prems(1) gen_order_step [OF g]] .
  then show ?case using Suc.IH l by blast
qed

lemma dup_order_loop_invariant:
  assumes "\<And>s s'. P s \<Longrightarrow> dup_step products s s' \<Longrightarrow> P s'"
    and "P st" and "dup_order_loop n products st w = Inr (st', w')"
  shows "P st'"
  using assms(2,3)
proof (induction n arbitrary: st w)
  case 0
  then show ?case by simp
next
  case (Suc n)
  from Suc.prems(2) obtain s1 w1 where
    g: "dup_order products st w = Inr (s1, w1)" and
    l: "dup_order_loop n products s1 w1 = Inr (st', w')"
    by (auto simp: and_then_eq_Inr case_prod_unfold)
  have "P s1" using assms(1) [OF Suc.prems(1) dup_order_step [OF g]] .
  then show ?case using Suc.IH l by blast
qed

lemma order_loop_length:
  assumes "order_loop n products st w = Inr (st', w')"
  shows "length (orders st') = length (orders st) + n"
  using assms
proof (induction n arbitrary: st w)
  case 0
  then show ?case by simp
next
  case (Suc n)
  from Suc.prems obtain s1 w1 where
    g: "gen_order products st w = Inr (s1, w1)" and
    l: "order_loop n products s1 w1 = Inr (st', w')"
    by (auto simp: and_then_eq_Inr case_prod_unfold)
  have "length (orders s1) = length (orders st) + 1"
    using gen_order_step [OF g] by (auto simp: base_step_def)
  then show ?case using Suc.IH [OF l] by simp
qed

lemma dup_order_loop_length:
  assumes "dup_order_loop n products st w = Inr (st', w')"
  shows "length (orders st') = length (orders st) + n"
  using assms
proof (induction n arbitrary: st w)
  case 0
  then show ?case by simp
next
  case (Suc n)
  from Suc.prems obtain s1 w1 where
    g: "dup_order products st w = Inr (s1, w1)" and
    l: "dup_order_loop n products s1 w1 = Inr (st', w')"
    by (auto simp: and_then_eq_Inr case_prod_unfold)
  have "length (orders s1) = length (orders st) + 1"
    using dup_order_step [OF g] by (auto simp: dup_step_def)
  then show ?case using Suc.IH [OF l] by simp
qed

lemma order_loop_total:
  assumes "products \<noteq> []"
  shows "\<exists>st' w'. order_loop n products st w = Inr (st', w')"
proof (induction n arbitrary: st w)
  case 0
  then show ?case by simp
next
  case (Suc n)
  obtain s1 w1 where g: "gen_order products st w = Inr (s1, w1)"
    using gen_order_total [OF assms] by blast
  obtain s2 w2 where "order_loop n products s1 w1 = Inr (s2, w2)" using Suc by blast
  then show ?case using g by simp
qed

lemma dup_order_loop_total:
  assumes "products \<noteq> []" and "orders st \<noteq> []"
  shows "\<exists>st' w'. dup_order_loop n products st w = Inr (st', w')"
  using assms(2)
proof (induction n arbitrary: st w)
  case 0
  then show ?case by simp
next
  case (Suc n)
  obtain s1 w1 where g: "dup_order products st w = Inr (s1, w1)"
    using dup_order_total [OF assms(1) Suc.prems] by blast
  have "orders s1 \<noteq> []" using dup_order_step [OF g] by (auto simp: dup_step_def)
  from Suc.IH [OF this] obtain s2 w2 where "dup_order_loop n products s1 w1 = Inr (s2, w2)"
    by blast
  then show ?case using g by simp
qed

section \<open>Bounds on line totals and order totals\<close>

lemma discount_consts:
  "fmul 5 (fsub 1 (fl (1/10))) = 9/2" "round2 (9/2) = 9/2" "fl (9/2) = 9/2"
  by code_simp+

lemma fl_tenth_le_1: "fl (1/10) \<le> 1"
  using fl_mono [of "1/10" 1] by (simp add: fl_1)

lemma discount_range:
  assumes "d \<in> set discount_pool"
  shows "0 \<le> d" and "d \<le> fl (1/10)"
proof -
  have a: "0 \<le> fl (1/10)" "0 \<le> fl (5/100)" by (rule fl_nonneg, simp)+
  have b: "fl (5/100) \<le> fl (1/10)" by (rule fl_mono) simp
  show "0 \<le> d" using assms a by (auto simp: discount_pool_def)
  show "d \<le> fl (1/10)" using assms a b by (auto simp: discount_pool_def)
qed

lemma line_total_lower:
  assumes "5 \<le> up" and "1 \<le> q" and "d \<in> set discount_pool"
  shows "9/2 \<le> round2 (fmul (fmul up (of_int q)) (fsub 1 d))"
proof -
  define c where "c = fsub 1 (fl (1/10))"
  have c0: "0 \<le> c" unfolding c_def fsub_def using fl_tenth_le_1 by (intro fl_nonneg) simp
  have cd: "c \<le> fsub 1 d" unfolding c_def fsub_def
    using discount_range(2) [OF assms(3)] by (intro fl_mono) simp
  have "(1::rat) \<le> of_int q" using assms(2) by simp
  then have "5 * 1 \<le> up * of_int q" using assms(1) by (intro mult_mono) simp_all
  then have "fl 5 \<le> fmul up (of_int q)" unfolding fmul_def by (intro fl_mono) simp
  then have a: "5 \<le> fmul up (of_int q)" by (simp add: fl_numeral)
  have "5 * c \<le> fmul up (of_int q) * fsub 1 d" using a cd c0 by (intro mult_mono) simp_all
  then have "fmul 5 c \<le> fmul (fmul up (of_int q)) (fsub 1 d)"
    unfolding fmul_def [of 5 c] fmul_def [of "fmul up (of_int q)"] by (rule fl_mono)
  then have "9/2 \<le> fmul (fmul up (of_int q)) (fsub 1 d)"
    using discount_consts(1) by (simp add: c_def)
  then have "round2 (9/2) \<le> round2 (fmul (fmul up (of_int q)) (fsub 1 d))" by (rule round2_mono)
  then show ?thesis using discount_consts(2) by simp
qed

lemma good_item_lower:
  assumes "good_item products oid i" and "priced products"
  shows "9/2 \<le> line_total i"
proof -
  from assms(1) obtain p d where
    p: "p \<in> set products" "unit_price i = price p" and q: "1 \<le> quantity i" and
    d: "d \<in> set discount_pool" and
    l: "line_total i = round2 (fmul (fmul (unit_price i) (of_int (quantity i))) (fsub 1 d))"
    unfolding good_item_def by blast
  have "5 \<le> unit_price i" using p assms(2) by (auto simp: priced_def list_all_iff)
  then show ?thesis unfolding l using q d by (rule line_total_lower)
qed

lemma float_sum_lower:
  assumes "9/2 \<le> a" and "\<forall>x \<in> set xs. 0 \<le> x"
  shows "9/2 \<le> foldl fadd a xs"
  using assms
proof (induction xs arbitrary: a)
  case Nil
  then show ?case by simp
next
  case (Cons x xs)
  have "fl (9/2) \<le> fadd a x" unfolding fadd_def using Cons.prems by (intro fl_mono) simp
  then have "9/2 \<le> fadd a x" using discount_consts(3) by simp
  then show ?case using Cons by simp
qed

lemma order_total_lower:
  assumes "xs \<noteq> []" and "\<forall>x \<in> set xs. 9/2 \<le> x"
  shows "9/2 \<le> round2 (float_sum xs)"
proof -
  obtain x rest where xs: "xs = x # rest" using assms(1) by (cases xs) auto
  have "fl (9/2) \<le> fadd 0 x" unfolding fadd_def using assms(2) xs by (intro fl_mono) simp
  then have a: "9/2 \<le> fadd 0 x" using discount_consts(3) by simp
  have "\<forall>y \<in> set rest. 0 \<le> y" using assms(2) xs by fastforce
  then have "9/2 \<le> foldl fadd (fadd 0 x) rest" using a float_sum_lower by blast
  then have "9/2 \<le> float_sum xs" by (simp add: float_sum_def xs)
  then have "round2 (9/2) \<le> round2 (float_sum xs)" by (rule round2_mono)
  then show ?thesis using discount_consts(2) by simp
qed

text \<open>A near-duplicate order total is its own rounded one-element sum.\<close>

lemma dup_total_sum:
  assumes "5 \<le> up" and "up \<le> 1000"
  shows "round2 (float_sum [round2 (fmul up 1)]) = round2 (fmul up 1)"
proof -
  define z where "z = fmul up 1"
  have "fl 5 \<le> z" unfolding z_def fmul_def using assms by (intro fl_mono) simp
  then have lo: "5 \<le> z" by (simp add: fl_numeral)
  have "z \<le> fl 1000" unfolding z_def fmul_def using assms by (intro fl_mono) simp
  then have hi: "z \<le> 1000" by (simp add: fl_numeral)
  have "rne (of_int 500) \<le> rne (z * 100)" using lo by (intro rne_mono) simp
  then have a: "500 \<le> rne (z * 100)" unfolding rne_of_int .
  have "rne (z * 100) \<le> rne (of_int 100000)" using hi by (intro rne_mono) simp
  then have b: "rne (z * 100) \<le> 100000" unfolding rne_of_int .
  have "\<bar>rne (z * 100)\<bar> < 2 ^ 52" using a b by simp
  then have i: "round2 (round2 z) = round2 z" by (rule round2_round2)
  have "float_sum [round2 z] = fl (round2 z)" by (simp add: float_sum_def fadd_def)
  then show ?thesis using i by (simp add: round2_idem_fl z_def)
qed

lemma dup_item_good:
  assumes "pr \<in> set products"
  shows "good_item products oid
     \<lparr>i_order_id = oid, item_no = 1, i_product_id = product_id pr, quantity = 1,
      unit_price = price pr, line_total = round2 (fmul (price pr) 1)\<rparr>"
proof -
  have "fmul (fmul (price pr) 1) (fsub 1 0) = fmul (price pr) 1"
    by (simp add: fmul_def fsub_def fl_1 fl_idem)
  moreover have "(0::rat) \<in> set discount_pool" by (simp add: discount_pool_def)
  ultimately show ?thesis using assms unfolding good_item_def by force
qed

section \<open>What the order loops maintain\<close>

lemma dup_step_base:
  assumes d: "dup_step products st st'" and p: "priced products"
    and od: "list_all (\<lambda>ord. 1 \<le> o_customer_id ord \<and> o_customer_id ord \<le> NUM_CUSTOMERS
                  \<and> promo_code ord \<in> set promo_pool) (orders st)"
  shows "base_step products st st'"
proof -
  from d obtain row pr ships where
    row: "row \<in> set (orders st)" and pr: "pr \<in> set products" and
    os: "orders st' = orders st @
              [\<lparr>order_id = order_id_seq st, o_customer_id = o_customer_id row,
                order_date = order_date row, order_total = round2 (fmul (price pr) 1),
                promo_code = promo_code row\<rparr>]" and
    its: "order_items st' = order_items st @
              [\<lparr>i_order_id = order_id_seq st, item_no = 1, i_product_id = product_id pr,
                quantity = 1, unit_price = price pr,
                line_total = round2 (fmul (price pr) 1)\<rparr>]" and
    ss: "shipments st' = shipments st @ ships" and
    sq: "order_id_seq st' = order_id_seq st + 1" and
    sl: "length ships \<le> 1" and
    sg: "list_all (good_shipment (order_id_seq st) (order_date row)) ships"
    unfolding dup_step_def by blast
  define ord where "ord = \<lparr>order_id = order_id_seq st, o_customer_id = o_customer_id row,
      order_date = order_date row, order_total = round2 (fmul (price pr) 1),
      promo_code = promo_code row\<rparr>"
  define it where "it = \<lparr>i_order_id = order_id_seq st, item_no = 1,
      i_product_id = product_id pr, quantity = 1, unit_price = price pr,
      line_total = round2 (fmul (price pr) 1)\<rparr>"
  have pb: "5 \<le> price pr" "price pr \<le> 1000" using p pr by (auto simp: priced_def list_all_iff)
  have r: "1 \<le> o_customer_id row" "o_customer_id row \<le> NUM_CUSTOMERS"
    "promo_code row \<in> set promo_pool" using od row by (auto simp: list_all_iff)
  have 1: "orders st' = orders st @ [ord]" by (simp add: os ord_def)
  have 2: "order_items st' = order_items st @ [it]" by (simp add: its it_def)
  have 3: "order_id ord = order_id_seq st" by (simp add: ord_def)
  have 4: "1 \<le> o_customer_id ord" "o_customer_id ord \<le> NUM_CUSTOMERS"
    "promo_code ord \<in> set promo_pool" using r by (simp_all add: ord_def)
  have 5: "order_total ord = round2 (float_sum (map line_total [it]))"
    using dup_total_sum [OF pb] by (simp add: ord_def it_def)
  have 6: "1 \<le> length [it]" "length [it] \<le> 4"
    "map item_no [it] = map (\<lambda>k. 1 + int k) [0 ..< length [it]]" by (simp_all add: it_def)
  have 7: "list_all (good_item products (order_id_seq st)) [it]"
    using dup_item_good [OF pr] by (simp add: it_def)
  have 8: "list_all (good_shipment (order_id_seq st) (order_date ord)) ships"
    using sg by (simp add: ord_def)
  show ?thesis unfolding base_step_def
    using 1 2 ss sq 3 4 5 6 7 sl 8 by blast
qed

lemma items_of_append: "items_of (xs @ ys) oid = items_of xs oid @ items_of ys oid"
  by (simp add: items_of_def)

lemma items_of_none: "\<forall>i \<in> set xs. i_order_id i \<noteq> oid \<Longrightarrow> items_of xs oid = []"
  by (simp add: items_of_def filter_empty_conv)

lemma items_of_all: "\<forall>i \<in> set xs. i_order_id i = oid \<Longrightarrow> items_of xs oid = xs"
  by (simp add: items_of_def filter_id_conv)

lemma order_inv_init: "order_inv products init_state"
  by (simp add: order_inv_def init_state_def)

lemma order_inv_base_step:
  assumes inv: "order_inv products st" and b: "base_step products st st'"
    and p: "priced products"
  shows "order_inv products st'"
proof -
  define q where "q = order_id_seq st"
  from b obtain ord items ships where
    os: "orders st' = orders st @ [ord]" and
    its: "order_items st' = order_items st @ items" and
    ss: "shipments st' = shipments st @ ships" and
    sq: "order_id_seq st' = q + 1" and
    oi: "order_id ord = q" and
    oc: "1 \<le> o_customer_id ord" "o_customer_id ord \<le> NUM_CUSTOMERS"
      "promo_code ord \<in> set promo_pool" and
    ot: "order_total ord = round2 (float_sum (map line_total items))" and
    il: "1 \<le> length items" and
    ino: "map item_no items = map (\<lambda>k. 1 + int k) [0 ..< length items]" and
    ig: "list_all (good_item products q) items" and
    sl: "length ships \<le> 1" and
    sg: "list_all (good_shipment q (order_date ord)) ships"
    unfolding base_step_def q_def by blast
  have q1: "1 \<le> q" and
    ids: "map order_id (orders st) = [1 .. q - 1]" and
    ol: "list_all (\<lambda>ord. 1 \<le> o_customer_id ord \<and> o_customer_id ord \<le> NUM_CUSTOMERS
                  \<and> promo_code ord \<in> set promo_pool \<and> 9/2 \<le> order_total ord
                  \<and> order_total ord = round2 (float_sum (map line_total
                        (items_of (order_items st) (order_id ord))))) (orders st)" and
    itl: "list_all (\<lambda>i. good_item products (i_order_id i) i
                  \<and> 1 \<le> i_order_id i \<and> i_order_id i < q \<and> 9/2 \<le> line_total i)
          (order_items st)" and
    dk: "distinct (map (\<lambda>i. (i_order_id i, item_no i)) (order_items st))" and
    shl: "list_all (\<lambda>s. \<exists>ord \<in> set (orders st). good_shipment (order_id ord) (order_date ord) s)
          (shipments st)" and
    ds: "distinct (map s_order_id (shipments st))"
    using inv unfolding order_inv_def q_def by blast+
  have newid: "\<forall>i \<in> set items. i_order_id i = q"
    using ig by (auto simp: list_all_iff good_item_def)
  have oldid: "\<forall>i \<in> set (order_items st). i_order_id i \<noteq> q"
    using itl by (auto simp: list_all_iff)
  have oldord: "\<forall>od \<in> set (orders st). order_id od < q"
  proof
    fix od assume "od \<in> set (orders st)"
    then have "order_id od \<in> set (map order_id (orders st))" by simp
    then show "order_id od < q" unfolding ids by simp
  qed
  have lts: "\<forall>i \<in> set items. 9/2 \<le> line_total i"
    using ig good_item_lower [OF _ p] by (auto simp: list_all_iff)
  \<comment> \<open>the order ids\<close>
  have c1: "1 \<le> order_id_seq st'" using q1 sq by simp
  have "[1 .. q] = [1 .. q - 1] @ [q]" using q1 by (simp add: upto_rec2)
  then have c2: "map order_id (orders st') = [1 .. order_id_seq st' - 1]"
    by (simp add: os sq ids oi)
  \<comment> \<open>the orders\<close>
  have it_old: "items_of (order_items st') (order_id od) = items_of (order_items st) (order_id od)"
    if "od \<in> set (orders st)" for od
  proof -
    have "order_id od \<noteq> q" using oldord that by auto
    then have "items_of items (order_id od) = []" using newid by (intro items_of_none) auto
    then show ?thesis by (simp add: its items_of_append)
  qed
  have it_new: "items_of (order_items st') q = items"
    using items_of_none [OF oldid] items_of_all [OF newid] by (simp add: its items_of_append)
  have "items \<noteq> []" using il by auto
  then have tot_new: "9/2 \<le> order_total ord"
    unfolding ot using lts by (intro order_total_lower) auto
  have c3: "list_all (\<lambda>ord. 1 \<le> o_customer_id ord \<and> o_customer_id ord \<le> NUM_CUSTOMERS
                  \<and> promo_code ord \<in> set promo_pool \<and> 9/2 \<le> order_total ord
                  \<and> order_total ord = round2 (float_sum (map line_total
                        (items_of (order_items st') (order_id ord))))) (orders st')"
    unfolding os list_all_append
  proof (intro conjI)
    show "list_all (\<lambda>ord. 1 \<le> o_customer_id ord \<and> o_customer_id ord \<le> NUM_CUSTOMERS
                  \<and> promo_code ord \<in> set promo_pool \<and> 9/2 \<le> order_total ord
                  \<and> order_total ord = round2 (float_sum (map line_total
                        (items_of (order_items st') (order_id ord))))) (orders st)"
      unfolding list_all_iff
    proof
      fix x assume x: "x \<in> set (orders st)"
      have "1 \<le> o_customer_id x \<and> o_customer_id x \<le> NUM_CUSTOMERS
          \<and> promo_code x \<in> set promo_pool \<and> 9/2 \<le> order_total x
          \<and> order_total x = round2 (float_sum (map line_total
                (items_of (order_items st) (order_id x))))"
        using ol x unfolding list_all_iff by blast
      then show "1 \<le> o_customer_id x \<and> o_customer_id x \<le> NUM_CUSTOMERS
          \<and> promo_code x \<in> set promo_pool \<and> 9/2 \<le> order_total x
          \<and> order_total x = round2 (float_sum (map line_total
                (items_of (order_items st') (order_id x))))"
        unfolding it_old [OF x] .
    qed
    show "list_all (\<lambda>ord. 1 \<le> o_customer_id ord \<and> o_customer_id ord \<le> NUM_CUSTOMERS
                  \<and> promo_code ord \<in> set promo_pool \<and> 9/2 \<le> order_total ord
                  \<and> order_total ord = round2 (float_sum (map line_total
                        (items_of (order_items st') (order_id ord))))) [ord]"
      using oc tot_new ot by (simp add: oi it_new)
  qed
  \<comment> \<open>the order items\<close>
  have c4: "list_all (\<lambda>i. good_item products (i_order_id i) i
                  \<and> 1 \<le> i_order_id i \<and> i_order_id i < order_id_seq st' \<and> 9/2 \<le> line_total i)
          (order_items st')"
    unfolding its list_all_append
  proof (intro conjI)
    show "list_all (\<lambda>i. good_item products (i_order_id i) i
                  \<and> 1 \<le> i_order_id i \<and> i_order_id i < order_id_seq st' \<and> 9/2 \<le> line_total i)
          (order_items st)"
      using itl by (auto simp: list_all_iff sq)
    show "list_all (\<lambda>i. good_item products (i_order_id i) i
                  \<and> 1 \<le> i_order_id i \<and> i_order_id i < order_id_seq st' \<and> 9/2 \<le> line_total i)
          items"
      using ig newid lts q1 by (auto simp: list_all_iff sq)
  qed
  have "map (\<lambda>i. (i_order_id i, item_no i)) items = map (\<lambda>n. (q, n)) (map item_no items)"
    using newid by simp
  also have "\<dots> = map (\<lambda>k. (q, 1 + int k)) [0 ..< length items]"
    unfolding ino by simp
  finally have keys: "map (\<lambda>i. (i_order_id i, item_no i)) items
      = map (\<lambda>k. (q, 1 + int k)) [0 ..< length items]" .
  have "distinct (map (\<lambda>k. (q, 1 + int k)) [0 ..< length items])"
    by (simp add: distinct_map inj_on_def)
  then have dnew: "distinct (map (\<lambda>i. (i_order_id i, item_no i)) items)" unfolding keys .
  have c5: "distinct (map (\<lambda>i. (i_order_id i, item_no i)) (order_items st'))"
    using dk dnew oldid newid by (auto simp: its)
  \<comment> \<open>the shipments\<close>
  have c6: "list_all (\<lambda>s. \<exists>ord \<in> set (orders st'). good_shipment (order_id ord) (order_date ord) s)
          (shipments st')"
    using shl sg oi by (auto simp: ss os list_all_iff)
  have sold: "\<forall>s \<in> set (shipments st). s_order_id s < q"
    using shl oldord by (fastforce simp: list_all_iff good_shipment_def)
  have snew: "\<forall>s \<in> set ships. s_order_id s = q"
    using sg by (auto simp: list_all_iff good_shipment_def)
  have "distinct (map s_order_id ships)" using sl by (cases ships) auto
  then have c7: "distinct (map s_order_id (shipments st'))"
    using ds sold snew by (auto simp: ss)
  show ?thesis unfolding order_inv_def
    using c1 c2 c3 c4 c5 c6 c7 by blast
qed

section \<open>The generated orders\<close>

lemma order_inv_fresh:
  assumes "order_inv products st"
  shows "\<forall>x \<in> set (orders st). order_id x < order_id_seq st"
    and "\<forall>i \<in> set (order_items st). i_order_id i < order_id_seq st"
proof -
  have ids: "map order_id (orders st) = [1 .. order_id_seq st - 1]"
    using assms unfolding order_inv_def by blast
  show "\<forall>x \<in> set (orders st). order_id x < order_id_seq st"
  proof
    fix x assume "x \<in> set (orders st)"
    then have "order_id x \<in> set (map order_id (orders st))" by simp
    then show "order_id x < order_id_seq st" unfolding ids by simp
  qed
  show "\<forall>i \<in> set (order_items st). i_order_id i < order_id_seq st"
    using assms unfolding order_inv_def by (auto simp: list_all_iff)
qed

lemma order_inv_dup_step:
  assumes "order_inv products st" and "dup_step products st st'" and "priced products"
  shows "order_inv products st'"
proof -
  have "list_all (\<lambda>ord. 1 \<le> o_customer_id ord \<and> o_customer_id ord \<le> NUM_CUSTOMERS
                  \<and> promo_code ord \<in> set promo_pool) (orders st)"
    using assms(1) unfolding order_inv_def by (auto simp: list_all_iff)
  from dup_step_base [OF assms(2,3) this] show ?thesis
    using order_inv_base_step assms(1,3) by blast
qed

lemma dup_inv_dup_step:
  assumes inv: "dup_inv products n st" and d: "dup_step products st st'"
    and p: "priced products"
  shows "dup_inv products n st'"
proof -
  have oi: "order_inv products st" and n: "n \<le> length (orders st)" and
    nd: "\<forall>k. n \<le> k \<and> k < length (orders st) \<longrightarrow> near_duplicate products (orders st) (order_items st) k"
    using inv unfolding dup_inv_def by blast+
  define q where "q = order_id_seq st"
  from d obtain row pr ships where
    row: "row \<in> set (orders st)" and pr: "pr \<in> set products" and
    os: "orders st' = orders st @
              [\<lparr>order_id = q, o_customer_id = o_customer_id row,
                order_date = order_date row, order_total = round2 (fmul (price pr) 1),
                promo_code = promo_code row\<rparr>]" and
    its: "order_items st' = order_items st @
              [\<lparr>i_order_id = q, item_no = 1, i_product_id = product_id pr,
                quantity = 1, unit_price = price pr,
                line_total = round2 (fmul (price pr) 1)\<rparr>]"
    unfolding dup_step_def q_def by blast
  define it where "it = \<lparr>i_order_id = q, item_no = 1, i_product_id = product_id pr,
      quantity = 1, unit_price = price pr, line_total = round2 (fmul (price pr) 1)\<rparr>"
  note fresh = order_inv_fresh [OF oi, folded q_def]
  have oldit: "items_of (order_items st') (order_id x) = items_of (order_items st) (order_id x)"
    if "x \<in> set (orders st)" for x
  proof -
    have "order_id x \<noteq> q" using fresh(1) that by auto
    then show ?thesis by (simp add: its items_of_def)
  qed
  have newit: "items_of (order_items st') q = [it]"
  proof -
    have "\<forall>i \<in> set (order_items st). i_order_id i \<noteq> q" using fresh(2) by auto
    then have "items_of (order_items st) q = []" by (rule items_of_none)
    then show ?thesis by (simp add: its items_of_append it_def) (simp add: items_of_def)
  qed
  have 1: "order_inv products st'" using order_inv_dup_step [OF oi d p] .
  have 2: "n \<le> length (orders st')" using n by (simp add: os)
  have 3: "near_duplicate products (orders st') (order_items st') k" if k: "n \<le> k" "k < length (orders st')" for k
  proof (cases "k < length (orders st)")
    case True
    then have "near_duplicate products (orders st) (order_items st) k" using nd k by blast
    then obtain j it0 where j: "j < k" and
      a: "o_customer_id (orders st ! k) = o_customer_id (orders st ! j)"
        "order_date (orders st ! k) = order_date (orders st ! j)"
        "promo_code (orders st ! k) = promo_code (orders st ! j)" and
      b: "items_of (order_items st) (order_id (orders st ! k)) = [it0]" and
      c: "item_no it0 = 1" "quantity it0 = 1"
        "\<exists>p \<in> set products. i_product_id it0 = product_id p \<and> unit_price it0 = price p"
        "order_total (orders st ! k) = line_total it0"
      unfolding near_duplicate_def by blast
    have ek: "orders st' ! k = orders st ! k" using True by (simp add: os nth_append)
    have ej: "orders st' ! j = orders st ! j" using True j by (simp add: os nth_append)
    have "orders st ! k \<in> set (orders st)" using True by simp
    then have b': "items_of (order_items st') (order_id (orders st ! k)) = [it0]"
      using oldit b by simp
    show ?thesis unfolding near_duplicate_def
      by (rule exI [of _ j], rule exI [of _ it0]) (use j a b' c ek ej in simp)
  next
    case False
    then have kk: "k = length (orders st)" using k by (simp add: os)
    obtain j where j: "j < length (orders st)" "orders st ! j = row"
      using row by (auto simp: in_set_conv_nth)
    have ek: "orders st' ! k = \<lparr>order_id = q, o_customer_id = o_customer_id row,
                order_date = order_date row, order_total = round2 (fmul (price pr) 1),
                promo_code = promo_code row\<rparr>"
      by (simp add: os kk)
    have ej: "orders st' ! j = row" using j by (simp add: os nth_append)
    have jk: "j < k" using j kk by simp
    have pp: "\<exists>p \<in> set products. i_product_id it = product_id p \<and> unit_price it = price p"
      using pr by (auto simp: it_def)
    show ?thesis unfolding near_duplicate_def
      by (rule exI [of _ j], rule exI [of _ it]) (use jk newit pp ek ej in \<open>simp add: it_def\<close>)
  qed
  show ?thesis unfolding dup_inv_def using 1 2 3 by blast
qed

lemma num_order_dupes_1400: "length os = 1400 \<Longrightarrow> num_order_dupes os = 14"
  using num_values by (simp add: num_order_dupes_def)

lemma gen_orders_Inr:
  assumes g: "gen_orders products w = Inr (st, w')" and p: "priced products"
  shows "order_inv products st" and "length (orders st) = 1414"
    and "\<forall>k. 1400 \<le> k \<and> k < 1414 \<longrightarrow> near_duplicate products (orders st) (order_items st) k"
proof -
  from g obtain st0 w0 where
    b: "order_loop NUM_ORDERS products init_state w = Inr (st0, w0)" and
    d: "dup_order_loop (nat (num_order_dupes (orders st0))) products st0 w0 = Inr (st, w')"
    unfolding gen_orders_def by (auto simp: and_then_eq_Inr case_prod_unfold)
  have l0: "length (orders st0) = 1400"
    using order_loop_length [OF b] by (simp add: init_state_def NUM_ORDERS_def)
  have d': "dup_order_loop 14 products st0 w0 = Inr (st, w')"
    using d num_order_dupes_1400 [OF l0] by simp
  have i0: "order_inv products st0"
    by (rule order_loop_invariant [where P = "order_inv products", OF _ order_inv_init b])
      (rule order_inv_base_step [OF _ _ p])
  have h0: "dup_inv products 1400 st0" unfolding dup_inv_def using i0 l0 by auto
  have di: "dup_inv products 1400 st"
    by (rule dup_order_loop_invariant [where P = "dup_inv products 1400", OF _ h0 d'])
      (rule dup_inv_dup_step [OF _ _ p])
  show "order_inv products st" using di unfolding dup_inv_def by blast
  show l: "length (orders st) = 1414" using dup_order_loop_length [OF d'] l0 by simp
  show "\<forall>k. 1400 \<le> k \<and> k < 1414 \<longrightarrow> near_duplicate products (orders st) (order_items st) k"
    using di unfolding dup_inv_def l by blast
qed

lemma gen_orders_total:
  assumes "products \<noteq> []"
  shows "\<exists>st w'. gen_orders products w = Inr (st, w')"
proof -
  obtain st0 w0 where b: "order_loop NUM_ORDERS products init_state w = Inr (st0, w0)"
    using order_loop_total [OF assms] by blast
  have "length (orders st0) = 1400"
    using order_loop_length [OF b] by (simp add: init_state_def NUM_ORDERS_def)
  then have "orders st0 \<noteq> []" by auto
  from dup_order_loop_total [OF assms this] obtain st w' where
    "dup_order_loop (nat (num_order_dupes (orders st0))) products st0 w0 = Inr (st, w')"
    by blast
  then show ?thesis unfolding gen_orders_def using b by simp
qed

section \<open>Insertion into the tables\<close>

lemma executemany_insert_category:
  assumes "distinct (map category_id rows)"
    and "set (map category_id rows) \<inter> set (map category_id (Categories db)) = {}"
  shows "executemany insert_category rows db = Inr (db\<lparr>Categories := Categories db @ rows\<rparr>)"
  using assms
proof (induction rows arbitrary: db)
  case Nil
  then show ?case by simp
next
  case (Cons r rows)
  define db1 where "db1 = db\<lparr>Categories := Categories db @ [r]\<rparr>"
  have 1: "insert_category r db = Inr db1"
    using Cons.prems(2) by (simp add: insert_category_def db1_def)
  have "executemany insert_category rows db1 = Inr (db1\<lparr>Categories := Categories db1 @ rows\<rparr>)"
    using Cons.prems by (intro Cons.IH) (auto simp: db1_def)
  then show ?case by (simp add: 1 db1_def)
qed

lemma executemany_insert_product:
  assumes "distinct (map product_id rows)"
    and "set (map product_id rows) \<inter> set (map product_id (Products db)) = {}"
    and "\<forall>r \<in> set rows. 0 \<le> price r \<and> 0 \<le> stock r
           \<and> p_category_id r \<in> set (map category_id (Categories db))"
  shows "executemany insert_product rows db = Inr (db\<lparr>Products := Products db @ rows\<rparr>)"
  using assms
proof (induction rows arbitrary: db)
  case Nil
  then show ?case by simp
next
  case (Cons r rows)
  define db1 where "db1 = db\<lparr>Products := Products db @ [r]\<rparr>"
  have 1: "insert_product r db = Inr db1"
    using Cons.prems(2,3) by (simp add: insert_product_def db1_def not_less)
  have "executemany insert_product rows db1 = Inr (db1\<lparr>Products := Products db1 @ rows\<rparr>)"
    using Cons.prems by (intro Cons.IH) (auto simp: db1_def)
  then show ?case by (simp add: 1 db1_def)
qed

lemma executemany_insert_customer:
  assumes "distinct (map customer_id rows)"
    and "set (map customer_id rows) \<inter> set (map customer_id (Customers db)) = {}"
    and "\<forall>r \<in> set rows. 0 \<le> total_spent r"
  shows "executemany insert_customer rows db = Inr (db\<lparr>Customers := Customers db @ rows\<rparr>)"
  using assms
proof (induction rows arbitrary: db)
  case Nil
  then show ?case by simp
next
  case (Cons r rows)
  define db1 where "db1 = db\<lparr>Customers := Customers db @ [r]\<rparr>"
  have 1: "insert_customer r db = Inr db1"
    using Cons.prems(2,3) by (simp add: insert_customer_def db1_def not_less)
  have "executemany insert_customer rows db1 = Inr (db1\<lparr>Customers := Customers db1 @ rows\<rparr>)"
    using Cons.prems by (intro Cons.IH) (auto simp: db1_def)
  then show ?case by (simp add: 1 db1_def)
qed

lemma executemany_insert_order:
  assumes "distinct (map order_id rows)"
    and "set (map order_id rows) \<inter> set (map order_id (Orders db)) = {}"
    and "\<forall>r \<in> set rows. 0 \<le> order_total r
           \<and> o_customer_id r \<in> set (map customer_id (Customers db))"
  shows "executemany insert_order rows db = Inr (db\<lparr>Orders := Orders db @ rows\<rparr>)"
  using assms
proof (induction rows arbitrary: db)
  case Nil
  then show ?case by simp
next
  case (Cons r rows)
  define db1 where "db1 = db\<lparr>Orders := Orders db @ [r]\<rparr>"
  have 1: "insert_order r db = Inr db1"
    using Cons.prems(2,3) by (simp add: insert_order_def db1_def not_less)
  have "executemany insert_order rows db1 = Inr (db1\<lparr>Orders := Orders db1 @ rows\<rparr>)"
    using Cons.prems by (intro Cons.IH) (auto simp: db1_def)
  then show ?case by (simp add: 1 db1_def)
qed

lemma executemany_insert_order_item:
  assumes "distinct (map (\<lambda>i. (i_order_id i, item_no i)) rows)"
    and "set (map (\<lambda>i. (i_order_id i, item_no i)) rows)
           \<inter> set (map (\<lambda>i. (i_order_id i, item_no i)) (Order_Items db)) = {}"
    and "\<forall>r \<in> set rows. 0 \<le> quantity r \<and> 0 \<le> unit_price r \<and> 0 \<le> line_total r
           \<and> i_order_id r \<in> set (map order_id (Orders db))
           \<and> i_product_id r \<in> set (map product_id (Products db))"
  shows "executemany insert_order_item rows db
           = Inr (db\<lparr>Order_Items := Order_Items db @ rows\<rparr>)"
  using assms
proof (induction rows arbitrary: db)
  case Nil
  then show ?case by simp
next
  case (Cons r rows)
  define db1 where "db1 = db\<lparr>Order_Items := Order_Items db @ [r]\<rparr>"
  have "(i_order_id r, item_no r) \<notin> set (map (\<lambda>i. (i_order_id i, item_no i)) (Order_Items db))"
    using Cons.prems(2) by auto
  then have 1: "insert_order_item r db = Inr db1"
    using Cons.prems(3) unfolding insert_order_item_def db1_def by (simp add: not_less)
  have "executemany insert_order_item rows db1
          = Inr (db1\<lparr>Order_Items := Order_Items db1 @ rows\<rparr>)"
    using Cons.prems by (intro Cons.IH) (auto simp: db1_def)
  then show ?case by (simp add: 1 db1_def)
qed

lemma next_rowid_eq:
  "next_rowid ids =
     (if map the (filter (\<lambda>i. i \<noteq> None) ids) = [] then 1
      else Max (set (map the (filter (\<lambda>i. i \<noteq> None) ids))) + 1)"
  unfolding next_rowid_def Let_def ..

lemma next_rowid_above: "Some k \<in> set ids \<Longrightarrow> k < next_rowid ids"
proof -
  assume a: "Some k \<in> set ids"
  define ks where "ks = map the (filter (\<lambda>i. i \<noteq> None) ids)"
  have "k \<in> set ks" using a by (force simp: ks_def)
  then have "ks \<noteq> []" and "k \<le> Max (set ks)" by auto
  then show ?thesis unfolding next_rowid_eq ks_def [symmetric] by simp
qed

lemma next_rowid_fresh: "Some (next_rowid ids) \<notin> set ids"
  using next_rowid_above [of "next_rowid ids" ids] by auto

lemma next_rowid_snoc: "next_rowid (ids @ [Some (next_rowid ids)]) = next_rowid ids + 1"
proof -
  define ks where "ks = map the (filter (\<lambda>i. i \<noteq> None) ids)"
  define n where "n = next_rowid ids"
  have le: "\<forall>k \<in> set ks. k \<le> n"
  proof
    fix k assume "k \<in> set ks"
    then have "Some k \<in> set ids" by (auto simp: ks_def)
    then show "k \<le> n" using next_rowid_above [of k ids] by (simp add: n_def)
  qed
  have m: "Max (set (ks @ [n])) = n" using le by (intro Max_eqI) auto
  have e: "map the (filter (\<lambda>i. i \<noteq> None) (ids @ [Some n])) = ks @ [n]"
    by (simp add: ks_def)
  have "next_rowid (ids @ [Some n]) = n + 1"
    unfolding next_rowid_eq e m by simp
  then show ?thesis by (simp add: n_def)
qed

lemma executemany_insert_shipment:
  assumes "\<forall>r \<in> set rows. shipment_id r = None \<and> s_order_id r \<in> set (map order_id (Orders db))"
  shows "executemany insert_shipment rows db
           = Inr (db\<lparr>Shipments := Shipments db @
                    number_from (next_rowid (map shipment_id (Shipments db))) rows\<rparr>)"
  using assms
proof (induction rows arbitrary: db)
  case Nil
  then show ?case by simp
next
  case (Cons r rows)
  define n where "n = next_rowid (map shipment_id (Shipments db))"
  define db1 where "db1 = db\<lparr>Shipments := Shipments db @ [r\<lparr>shipment_id := Some n\<rparr>]\<rparr>"
  have 1: "insert_shipment r db = Inr db1"
    using Cons.prems next_rowid_fresh [of "map shipment_id (Shipments db)"]
    unfolding insert_shipment_def db1_def n_def by (simp add: Let_def)
  have 2: "next_rowid (map shipment_id (Shipments db1)) = n + 1"
    using next_rowid_snoc [of "map shipment_id (Shipments db)"] by (simp add: db1_def n_def)
  have "executemany insert_shipment rows db1
          = Inr (db1\<lparr>Shipments := Shipments db1 @
                    number_from (next_rowid (map shipment_id (Shipments db1))) rows\<rparr>)"
    using Cons.prems by (intro Cons.IH) (auto simp: db1_def)
  then show ?case unfolding 2 by (simp add: 1 db1_def n_def)
qed

section \<open>The aggregation pass\<close>

lemma executemany_update_total_spent:
  assumes "\<forall>cid \<in> set cids. 0 \<le> f cid"
  shows "executemany update_total_spent (map (\<lambda>cid. (f cid, cid)) cids) db
           = Inr (db\<lparr>Customers :=
                    map (\<lambda>c. if customer_id c \<in> set cids
                             then c\<lparr>total_spent := f (customer_id c)\<rparr> else c)
                      (Customers db)\<rparr>)"
  using assms
proof (induction cids arbitrary: db)
  case Nil
  then show ?case by simp
next
  case (Cons cid cids)
  define db1 where "db1 = db\<lparr>Customers :=
      map (\<lambda>c. if customer_id c = cid then c\<lparr>total_spent := f cid\<rparr> else c) (Customers db)\<rparr>"
  have 1: "update_total_spent (f cid, cid) db = Inr db1"
    using Cons.prems by (simp add: update_total_spent_def db1_def not_less)
  have 2: "executemany update_total_spent (map (\<lambda>cid. (f cid, cid)) cids) db1
      = Inr (db1\<lparr>Customers :=
                    map (\<lambda>c. if customer_id c \<in> set cids
                             then c\<lparr>total_spent := f (customer_id c)\<rparr> else c)
                      (Customers db1)\<rparr>)"
    using Cons.prems by (intro Cons.IH) simp
  have 3: "map (\<lambda>c. if customer_id c \<in> set cids
                             then c\<lparr>total_spent := f (customer_id c)\<rparr> else c)
                      (Customers db1)
      = map (\<lambda>c. if customer_id c \<in> set (cid # cids)
                             then c\<lparr>total_spent := f (customer_id c)\<rparr> else c)
                      (Customers db)"
    by (auto simp: db1_def)
  show ?case unfolding list.map executemany.simps 1 and_then_Inr 2 3
    by (simp add: db1_def)
qed

lemma float_sum_nonneg:
  assumes "0 \<le> a" and "\<forall>x \<in> set xs. 0 \<le> x"
  shows "0 \<le> foldl fadd a xs"
  using assms
proof (induction xs arbitrary: a)
  case Nil
  then show ?case by simp
next
  case (Cons x xs)
  have "0 \<le> fadd a x" unfolding fadd_def using Cons.prems by (intro fl_nonneg) simp
  then show ?case using Cons by simp
qed

lemma round2_nonneg: "0 \<le> x \<Longrightarrow> 0 \<le> round2 x"
  using round2_mono [of 0 x] by (simp add: round2_def rne_def fl_0)

lemma spent_nonneg:
  assumes "\<forall>r \<in> set os. 0 \<le> order_total r"
  shows "0 \<le> spent os cid"
  unfolding spent_def sql_sum_def
  using assms by (intro round2_nonneg float_sum_nonneg) auto

lemma aggregate_Inr:
  assumes "\<forall>r \<in> set (Orders db). 0 \<le> order_total r"
  shows "aggregate db = Inr (db\<lparr>Customers := with_totals (Orders db) (Customers db)\<rparr>)"
proof -
  have l: "map (\<lambda>(cid, tot). (round2 (if tot \<noteq> 0 then tot else 0), cid)) (cust_totals db)
      = map (\<lambda>cid. (spent (Orders db) cid, cid))
          (sort (remdups (map o_customer_id (Orders db))))"
    by (simp add: cust_totals_def spent_def comp_def)
  have "\<forall>cid \<in> set (sort (remdups (map o_customer_id (Orders db)))).
      0 \<le> spent (Orders db) cid"
    using spent_nonneg [OF assms] by blast
  from executemany_update_total_spent [OF this, of db] show ?thesis
    unfolding aggregate_def l with_totals_def by simp
qed

section \<open>A run on a fresh database file\<close>

lemma upto_1_12: "[1 .. 12 :: int] = [1, 2, 3, 4, 5, 6, 7, 8, 9, 10, 11, 12]"
  by code_simp

lemma category_ids: "map category_id category_rows = [1 .. 12]"
  unfolding upto_1_12 by (simp add: category_rows_def categories_def upt_rec_numeral)

lemma gen_products_priced:
  "gen_products pids w = Inr (ps, w') \<Longrightarrow> priced ps"
  using gen_products_Inr(2) by (fastforce simp: priced_def list_all_iff)

lemma run_fresh:
  assumes gp: "gen_products [1 .. NUM_PRODUCTS] w = Inr (products, w1)"
    and gc: "gen_all_customers today w1 = Inr (customers, w2)"
    and go: "gen_orders products w2 = Inr (st, w3)"
  shows "run w today None = Inr (final_db products customers st)"
proof -
  note P = gen_products_Inr [OF gp]
  note C = gen_all_customers_Inr [OF gc]
  have pr: "priced products" using gen_products_priced [OF gp] .
  note O = gen_orders_Inr [OF go pr]
  define q where "q = order_id_seq st"
  have q1: "1 \<le> q" and
    ids: "map order_id (orders st) = [1 .. q - 1]" and
    ol: "list_all (\<lambda>ord. 1 \<le> o_customer_id ord \<and> o_customer_id ord \<le> NUM_CUSTOMERS
                  \<and> promo_code ord \<in> set promo_pool \<and> 9/2 \<le> order_total ord
                  \<and> order_total ord = round2 (float_sum (map line_total
                        (items_of (order_items st) (order_id ord))))) (orders st)" and
    itl: "list_all (\<lambda>i. good_item products (i_order_id i) i
                  \<and> 1 \<le> i_order_id i \<and> i_order_id i < q \<and> 9/2 \<le> line_total i)
          (order_items st)" and
    dk: "distinct (map (\<lambda>i. (i_order_id i, item_no i)) (order_items st))" and
    shl: "list_all (\<lambda>s. \<exists>ord \<in> set (orders st). good_shipment (order_id ord) (order_date ord) s)
          (shipments st)"
    using O(1) unfolding order_inv_def q_def by blast+
  define db1 where "db1 = empty_db\<lparr>Categories := category_rows\<rparr>"
  define db2 where "db2 = db1\<lparr>Products := products\<rparr>"
  define db3 where "db3 = db2\<lparr>Customers := customers\<rparr>"
  define db4 where "db4 = db3\<lparr>Orders := orders st\<rparr>"
  define db5 where "db5 = db4\<lparr>Order_Items := order_items st\<rparr>"
  define db6 where "db6 = db5\<lparr>Shipments := number_from 1 (shipments st)\<rparr>"
  have s0: "create_schema None = Inr empty_db" by (simp add: create_schema_def)
  have s1: "executemany insert_category category_rows empty_db = Inr db1"
    using executemany_insert_category [of category_rows empty_db]
    by (simp add: category_ids empty_db_def db1_def)
  have s2: "executemany insert_product products db1 = Inr db2"
  proof -
    have "\<forall>r \<in> set products. 0 \<le> price r \<and> 0 \<le> stock r
           \<and> p_category_id r \<in> set (map category_id (Categories db1))"
      using P(2) by (auto simp: db1_def category_ids)
    then show ?thesis
      using executemany_insert_product [of products db1] P(1)
      by (simp add: db1_def empty_db_def db2_def)
  qed
  have s3: "executemany insert_customer customers db2 = Inr db3"
    using executemany_insert_customer [of customers db2] C
    by (simp add: db2_def db1_def empty_db_def db3_def)
  have s4: "executemany insert_order (orders st) db3 = Inr db4"
  proof -
    have "\<forall>r \<in> set (orders st). 0 \<le> order_total r
           \<and> o_customer_id r \<in> set (map customer_id (Customers db3))"
      using ol by (auto simp: list_all_iff db3_def C(1))
    then show ?thesis
      using executemany_insert_order [of "orders st" db3] ids
      by (simp add: db3_def db2_def db1_def empty_db_def db4_def)
  qed
  have s5: "executemany insert_order_item (order_items st) db4 = Inr db5"
  proof -
    have "0 \<le> quantity r \<and> 0 \<le> unit_price r \<and> 0 \<le> line_total r
           \<and> i_order_id r \<in> set (map order_id (Orders db4))
           \<and> i_product_id r \<in> set (map product_id (Products db4))"
      if r: "r \<in> set (order_items st)" for r
    proof -
      have g: "good_item products (i_order_id r) r" and b: "1 \<le> i_order_id r" "i_order_id r < q"
        and l: "9/2 \<le> line_total r"
        using itl r by (auto simp: list_all_iff)
      from g obtain p where p: "p \<in> set products" "i_product_id r = product_id p"
        "unit_price r = price p" and qt: "1 \<le> quantity r"
        unfolding good_item_def by blast
      have "5 \<le> price p" using P(2) p(1) by blast
      moreover have "product_id p \<in> set (map product_id products)" using p(1) by simp
      moreover have "i_order_id r \<in> set [1 .. q - 1]" using b by simp
      ultimately show ?thesis using p qt l
        by (simp add: db4_def db3_def db2_def ids [symmetric] del: set_map)
    qed
    then show ?thesis
      using executemany_insert_order_item [of "order_items st" db4] dk
      by (simp add: db4_def db3_def db2_def db1_def empty_db_def db5_def)
  qed
  have s6: "executemany insert_shipment (shipments st) db5 = Inr db6"
  proof -
    have "\<forall>r \<in> set (shipments st). shipment_id r = None
        \<and> s_order_id r \<in> set (map order_id (Orders db5))"
      using shl by (fastforce simp: list_all_iff good_shipment_def db5_def db4_def)
    from executemany_insert_shipment [OF this] show ?thesis
      by (simp add: db5_def db4_def db3_def db2_def db1_def empty_db_def db6_def next_rowid_def)
  qed
  have s7: "aggregate db6 = Inr (final_db products customers st)"
  proof -
    have "\<forall>r \<in> set (Orders db6). 0 \<le> order_total r"
      using ol by (auto simp: list_all_iff db6_def db5_def db4_def)
    from aggregate_Inr [OF this] show ?thesis
      by (simp add: final_db_def db6_def db5_def db4_def db3_def db2_def db1_def empty_db_def)
  qed
  show ?thesis
    unfolding run_def by (simp add: s0 s1 gp s2 gc s3 go s4 s5 s6 s7)
qed

lemma run_fresh_total:
  "\<exists>products w1 customers w2 st w3.
     gen_products [1 .. NUM_PRODUCTS] w = Inr (products, w1)
     \<and> gen_all_customers today w1 = Inr (customers, w2)
     \<and> gen_orders products w2 = Inr (st, w3)
     \<and> run w today None = Inr (final_db products customers st)"
proof -
  obtain products w1 where gp: "gen_products [1 .. NUM_PRODUCTS] w = Inr (products, w1)"
    using gen_products_total by blast
  have "length (map product_id products) = 300"
    unfolding gen_products_Inr(1) [OF gp] by (simp add: NUM_PRODUCTS_def)
  then have ne: "products \<noteq> []" by auto
  obtain customers w2 where gc: "gen_all_customers today w1 = Inr (customers, w2)"
    using gen_all_customers_total by blast
  obtain st w3 where go: "gen_orders products w2 = Inr (st, w3)"
    using gen_orders_total [OF ne] by blast
  show ?thesis using gp gc go run_fresh [OF gp gc go] by blast
qed

lemma run_existing: "run w today (Some db) = Inl OperationalError"
  by (simp add: run_def create_schema_def)

section \<open>The number of orders\<close>

lemma main_fresh:
  "\<exists>products w1 customers w2 st w3.
     gen_products [1 .. NUM_PRODUCTS] (seeded lib) = Inr (products, w1)
     \<and> gen_all_customers today w1 = Inr (customers, w2)
     \<and> gen_orders products w2 = Inr (st, w3)
     \<and> main lib today None = Inr (final_db products customers st)"
  unfolding main_def by (rule run_fresh_total)

lemma upto_strict_sorted: "sorted_wrt (<) [i .. j :: int]"
  using sorted_upto [of i j] distinct_upto [of i j] by (simp add: strict_sorted_iff)

lemma dup_order_loop_prefix:
  assumes "dup_order_loop n products st w = Inr (st', w')"
  shows "take (length (orders st)) (orders st') = orders st"
proof -
  define P where "P = (\<lambda>s :: gen_state. length (orders st) \<le> length (orders s)
      \<and> take (length (orders st)) (orders s) = orders st)"
  have "P st'"
  proof (rule dup_order_loop_invariant [where P = P, OF _ _ assms])
    show "P st" by (simp add: P_def)
    show "\<And>s s'. P s \<Longrightarrow> dup_step products s s' \<Longrightarrow> P s'"
      unfolding P_def dup_step_def by auto
  qed
  then show ?thesis by (simp add: P_def)
qed

lemma gen_orders_split:
  assumes "gen_orders products w = Inr (st, w')"
  shows "\<exists>base w0. order_loop NUM_ORDERS products init_state w = Inr (base, w0)
           \<and> length (orders base) = 1400 \<and> num_order_dupes (orders base) = 14
           \<and> dup_order_loop 14 products base w0 = Inr (st, w')
           \<and> take 1400 (orders st) = orders base"
proof -
  from assms obtain st0 w0 where
    b: "order_loop NUM_ORDERS products init_state w = Inr (st0, w0)" and
    d: "dup_order_loop (nat (num_order_dupes (orders st0))) products st0 w0 = Inr (st, w')"
    unfolding gen_orders_def by (auto simp: and_then_eq_Inr case_prod_unfold)
  have l0: "length (orders st0) = 1400"
    using order_loop_length [OF b] by (simp add: init_state_def NUM_ORDERS_def)
  have n: "num_order_dupes (orders st0) = 14" using num_order_dupes_1400 [OF l0] .
  have d': "dup_order_loop 14 products st0 w0 = Inr (st, w')" using d n by simp
  have "take 1400 (orders st) = orders st0" using dup_order_loop_prefix [OF d'] l0 by simp
  then show ?thesis using b l0 n d' by blast
qed

lemma gen_orders_ids:
  assumes "gen_orders products w = Inr (st, w')" and "priced products"
  shows "map order_id (orders st) = [1 .. 1414]"
proof -
  note O = gen_orders_Inr [OF assms]
  have ids: "map order_id (orders st) = [1 .. order_id_seq st - 1]"
    and q: "1 \<le> order_id_seq st"
    using O(1) unfolding order_inv_def by blast+
  have "length (map order_id (orders st)) = 1414" using O(2) by simp
  then have "length [1 .. order_id_seq st - 1] = 1414" unfolding ids .
  then have "order_id_seq st - 1 = 1414" using q by simp
  then show ?thesis using ids by simp
qed

text \<open>
  Claim C6: the base loop writes exactly \<open>NUM_ORDERS\<close> = 1400 orders, the near-duplicate
  loop runs \<open>max(1, int(0.01 * 1400))\<close> = 14 times and appends one order per pass, so the
  Orders table holds 1414 rows, the base orders first; the order ids are 1, 2, ..., 1414
  in row order, one strictly increasing sequence.
\<close>

theorem order_rows_count:
  "\<exists>products w1 customers w2 base w3 st w4 db.
     gen_products [1 .. NUM_PRODUCTS] (seeded lib) = Inr (products, w1)
     \<and> gen_all_customers today w1 = Inr (customers, w2)
     \<and> order_loop NUM_ORDERS products init_state w2 = Inr (base, w3)
     \<and> NUM_ORDERS = 1400 \<and> length (orders base) = 1400
     \<and> num_order_dupes (orders base) = 14
     \<and> dup_order_loop 14 products base w3 = Inr (st, w4)
     \<and> main lib today None = Inr db
     \<and> take 1400 (Orders db) = orders base
     \<and> length (Orders db) = 1414
     \<and> map order_id (Orders db) = [1 .. 1414]
     \<and> sorted_wrt (<) (map order_id (Orders db))"
proof -
  obtain products w1 customers w2 st w4 where
    gp: "gen_products [1 .. NUM_PRODUCTS] (seeded lib) = Inr (products, w1)" and
    gc: "gen_all_customers today w1 = Inr (customers, w2)" and
    go: "gen_orders products w2 = Inr (st, w4)" and
    m: "main lib today None = Inr (final_db products customers st)"
    using main_fresh by blast
  have pr: "priced products" using gen_products_priced [OF gp] .
  from gen_orders_split [OF go] obtain base w3 where
    b: "order_loop NUM_ORDERS products init_state w2 = Inr (base, w3)"
      "length (orders base) = 1400" "num_order_dupes (orders base) = 14"
      "dup_order_loop 14 products base w3 = Inr (st, w4)"
      "take 1400 (orders st) = orders base" by blast
  have o: "Orders (final_db products customers st) = orders st" by (simp add: final_db_def)
  have ids: "map order_id (orders st) = [1 .. 1414]" using gen_orders_ids [OF go pr] .
  have l: "length (orders st) = 1414" using gen_orders_Inr(2) [OF go pr] .
  have s: "sorted_wrt (<) (map order_id (orders st))" unfolding ids by (rule upto_strict_sorted)
  show ?thesis
    by (rule exI [of _ products], rule exI [of _ w1], rule exI [of _ customers],
        rule exI [of _ w2], rule exI [of _ base], rule exI [of _ w3], rule exI [of _ st],
        rule exI [of _ w4], rule exI [of _ "final_db products customers st"])
      (use gp gc b m o ids l s in \<open>simp add: NUM_ORDERS_def\<close>)
qed

section \<open>Promo codes of the base orders\<close>

lemma next_raw_const: "next_raw (const_world r) = (r, const_world r)"
  by (simp add: next_raw_def const_world_def)

lemma next_fake_const: "next_fake (const_world r) = (''abc'', const_world r)"
  by (simp add: next_fake_def const_world_def)

lemma randbelow_const: "randbelow n (const_world r) = (r mod n, const_world r)"
  by (simp add: randbelow_def next_raw_const)

lemma random_random_const:
  "random_random (const_world r) = (of_nat (r mod 2 ^ 53) / 2 ^ 53, const_world r)"
  by (simp add: random_random_def next_raw_const)

lemma randint_const:
  "a \<le> b \<Longrightarrow> randint a b (const_world r)
     = Inr (a + int (r mod nat (b - a + 1)), const_world r)"
  by (simp add: randint_def randbelow_const)

lemma choice_const:
  "xs \<noteq> [] \<Longrightarrow> choice xs (const_world r) = Inr (xs ! (r mod length xs), const_world r)"
  by (simp add: choice_def randbelow_const)

text \<open>The raw draws that a call consumes.\<close>

lemma rnd_next_raw: "rnd (snd (next_raw w)) i = rnd w (Suc i)"
  by (simp add: next_raw_def)

lemma randint_world: "randint a b w = Inr (k, w') \<Longrightarrow> w' = snd (next_raw w)"
  by (auto simp: randint_def randbelow_def Let_def case_prod_unfold split: if_splits)

lemma rand_date_world: "rand_date y1 y2 w = Inr (d, w') \<Longrightarrow> w' = snd (next_raw w)"
  by (auto simp: rand_date_def Let_def and_then_eq_Inr case_prod_unfold dest: randint_world)

lemma choice_value:
  "choice xs w = Inr (x, w') \<Longrightarrow> x = xs ! (rnd w 0 mod length xs) \<and> w' = snd (next_raw w)"
  by (auto simp: choice_def randbelow_def next_raw_def Let_def case_prod_unfold
      split: if_splits)

lemma gen_order_promo:
  assumes "gen_order products st w = Inr (st', w')"
  shows "\<exists>ord. orders st' = orders st @ [ord]
           \<and> order_id ord = order_id_seq st
           \<and> promo_code ord = promo_pool ! (rnd w 2 mod length promo_pool)"
proof -
  from assms obtain cust w1 odate w2 promo w3 items tot ships where
    c: "randint 1 NUM_CUSTOMERS w = Inr (cust, w1)" and
    d: "rand_order_date w1 = Inr (odate, w2)" and
    p: "choice promo_pool w2 = Inr (promo, w3)" and
    e: "st' = \<lparr>orders = orders st @ [\<lparr>order_id = order_id_seq st, o_customer_id = cust,
                                      order_date = odate, order_total = round2 tot,
                                      promo_code = promo\<rparr>],
               order_items = order_items st @ items,
               shipments = shipments st @ ships,
               order_id_seq = order_id_seq st + 1\<rparr>"
    unfolding gen_order_def by (auto simp: and_then_eq_Inr Let_def case_prod_unfold)
  have w1: "w1 = snd (next_raw w)" using randint_world [OF c] .
  have w2: "w2 = snd (next_raw w1)" using rand_date_world d unfolding rand_order_date_def by blast
  have "rnd w2 0 = rnd w 2" unfolding w2 w1 rnd_next_raw by (simp add: numeral_2_eq_2)
  then have "promo = promo_pool ! (rnd w 2 mod length promo_pool)"
    using choice_value [OF p] by simp
  then show ?thesis by (simp add: e)
qed

lemma promo_pool_length: "length promo_pool = 6"
  by (simp add: promo_pool_def)

lemma base_promo_eq: "base_promo r = promo_pool ! (r mod 6)"
proof -
  have "\<exists>st' w'. gen_order [example_product] init_state (const_world r) = Inr (st', w')"
    by (rule gen_order_total) simp
  then obtain st' w' where
    g: "gen_order [example_product] init_state (const_world r) = Inr (st', w')" by blast
  from gen_order_promo [OF g] obtain ord where
    o: "orders st' = orders init_state @ [ord]"
      "promo_code ord = promo_pool ! (rnd (const_world r) 2 mod length promo_pool)" by blast
  have l: "last (orders st') = ord" by (simp add: o(1))
  have r2: "rnd (const_world r) 2 = r" by (simp add: const_world_def)
  show ?thesis unfolding base_promo_def g by (simp add: l o(2) r2 promo_pool_length)
qed

text \<open>
  Claim C4, as stated: the promo code of a base order is drawn from a pool of five entries
  and is null with probability 3/5. \<open>base_promo r\<close> is the promo code that the order loop
  gives its order when the raw draws are \<open>r\<close>. The six draws 0, ..., 5 reach six positions
  of the pool, three of them null; the draws 1 and 6, equal modulo 5, give different codes.
\<close>

theorem base_promo_counterexample:
  "map base_promo [0, 1, 2, 3, 4, 5]
     = [None, Some ''NEW10'', Some ''FREESHIP'', Some ''SUMMER20'', None, None]
   \<and> base_promo 6 = None \<and> base_promo 1 \<noteq> base_promo 6
   \<and> count_list (map base_promo [0, 1, 2, 3, 4, 5]) None = 3
   \<and> (3 :: rat) / 6 \<noteq> 3 / 5"
  by (simp add: base_promo_eq promo_pool_def)

text \<open>
  Claim C4, amended: a pass of the base order loop appends one order whose promo code is
  the entry of the six-entry pool \<open>[None, NEW10, FREESHIP, SUMMER20, None, None]\<close> at the
  position that \<open>random.choice\<close> draws, the third raw draw of the pass modulo 6; three of
  the six positions hold null, so the code is null with probability 3/6 = 1/2, and each
  of the three codes has probability 1/6.
\<close>

theorem base_order_promo:
  assumes "gen_order products st w = Inr (st', w')"
  shows "(\<exists>ord. orders st' = orders st @ [ord]
            \<and> promo_code ord = promo_pool ! (rnd w 2 mod 6))
         \<and> promo_pool = [None, Some ''NEW10'', Some ''FREESHIP'', Some ''SUMMER20'', None, None]
         \<and> choice_prob promo_pool None = 1/2
         \<and> choice_prob promo_pool (Some ''NEW10'') = 1/6
         \<and> choice_prob promo_pool (Some ''FREESHIP'') = 1/6
         \<and> choice_prob promo_pool (Some ''SUMMER20'') = 1/6"
proof -
  have "\<exists>ord. orders st' = orders st @ [ord] \<and> promo_code ord = promo_pool ! (rnd w 2 mod 6)"
    using gen_order_promo [OF assms] unfolding promo_pool_length by blast
  moreover have "choice_prob promo_pool None = 1/2"
    by (simp add: promo_pool_def choice_prob_def)
  moreover have "choice_prob promo_pool (Some ''NEW10'') = 1/6"
    by (simp add: promo_pool_def choice_prob_def)
  moreover have "choice_prob promo_pool (Some ''FREESHIP'') = 1/6"
    by (simp add: promo_pool_def choice_prob_def)
  moreover have "choice_prob promo_pool (Some ''SUMMER20'') = 1/6"
    by (simp add: promo_pool_def choice_prob_def)
  ultimately show ?thesis by (simp add: promo_pool_def)
qed

theorem base_order_promo_witness:
  "\<exists>st' w'. gen_order [example_product] init_state (const_world 3) = Inr (st', w')
     \<and> (\<exists>ord. orders st' = orders init_state @ [ord]
            \<and> promo_code ord = Some ''SUMMER20'')"
proof -
  have "\<exists>st' w'. gen_order [example_product] init_state (const_world 3) = Inr (st', w')"
    by (rule gen_order_total) simp
  then obtain st' w' where
    g: "gen_order [example_product] init_state (const_world 3) = Inr (st', w')" by blast
  from base_order_promo [OF g] obtain ord where
    "orders st' = orders init_state @ [ord]"
    "promo_code ord = promo_pool ! (rnd (const_world 3) 2 mod 6)" by blast
  moreover have "rnd (const_world 3) 2 = 3" by (simp add: const_world_def)
  ultimately have "orders st' = orders init_state @ [ord] \<and> promo_code ord = Some ''SUMMER20''"
    by (simp add: promo_pool_def)
  then show ?thesis using g by blast
qed

section \<open>The duplicate-identity step, pass by pass\<close>

lemma half_draw: "(of_nat k :: rat) / 2 ^ 53 < fl (1/2) \<longleftrightarrow> k < 2 ^ 52"
proof -
  have "(of_nat k :: rat) / 2 ^ 53 < 1/2 \<longleftrightarrow> (of_nat k :: rat) < of_nat (2 ^ 52)"
    by (simp add: field_simps)
  then show ?thesis unfolding of_nat_less_iff by (simp add: fl_half)
qed

text \<open>
  One pass of the loop: the name of the source row is always written, its email exactly
  when the draw of \<open>random.random()\<close>, the second raw draw of the pass, falls in the lower
  half of its \<open>2^53\<close> equally likely outcomes.
\<close>

lemma dup_loop_pass:
  "dup_loop (idx # rest) xs v =
     (if xs = [] \<or> length xs \<le> idx then Inl IndexError
      else dup_loop rest
             (xs[idx := (xs ! idx)
                   \<lparr>customer_name := customer_name (xs ! (rnd v 0 mod length xs)),
                    email := (if rnd v 1 mod 2 ^ 53 < 2 ^ 52
                              then email (xs ! (rnd v 0 mod length xs))
                              else email (xs ! idx))\<rparr>])
             (v\<lparr>rnd := \<lambda>i. rnd v (i + 2)\<rparr>))"
proof (cases "xs = []")
  case True
  then show ?thesis by (simp add: choice_def)
next
  case False
  define v1 where "v1 = snd (next_raw v)"
  define v2 where "v2 = snd (next_raw v1)"
  define rv :: rat where "rv = of_nat (rnd v 1 mod 2 ^ 53) / 2 ^ 53"
  have c: "choice xs v = Inr (xs ! (rnd v 0 mod length xs), v1)"
    using False by (simp add: choice_def randbelow_def next_raw_def Let_def v1_def)
  have rr: "random_random v1 = (rv, v2)"
    by (simp add: random_random_def next_raw_def v1_def v2_def rv_def)
  have v2e: "v2 = v\<lparr>rnd := \<lambda>i. rnd v (i + 2)\<rparr>"
    by (simp add: v1_def v2_def next_raw_def)
  have t: "(rv < fl (1/2)) = (rnd v 1 mod 2 ^ 53 < 2 ^ 52)"
    unfolding rv_def by (rule half_draw)
  show ?thesis
    unfolding dup_loop.simps c and_then_Inr prod.case rr Let_def t v2e
    using False by simp
qed

lemma dup_loop_append:
  "dup_loop (as @ bs) cs w = and_then (dup_loop as cs w) (\<lambda>(xs, v). dup_loop bs xs v)"
proof (induction as arbitrary: cs w)
  case Nil
  then show ?case by simp
next
  case (Cons a as)
  show ?case unfolding append_Cons dup_loop_pass Cons.IH by simp
qed

lemma dup_loop_draws:
  assumes "dup_loop idxs cs w = Inr (cs', w')"
  shows "w' = w\<lparr>rnd := \<lambda>i. rnd w (i + 2 * length idxs)\<rparr>" and "length cs' = length cs"
  using assms
proof (induction idxs arbitrary: cs w)
  case Nil
  { case 1 then show ?case by simp }
  { case 2 then show ?case by simp }
next
  case (Cons a idxs)
  { case 1
    then show ?case unfolding dup_loop_pass
      by (auto split: if_splits dest!: Cons.IH(1) simp: add.commute add.left_commute) }
  { case 2
    then show ?case unfolding dup_loop_pass
      by (auto split: if_splits dest!: Cons.IH(2)) }
qed

lemma sample_pool_draws:
  assumes "\<forall>i < k. rnd w i = length xs" and "k \<le> length ys"
  shows "sample_pool (xs @ ys) k w = (take k ys, w\<lparr>rnd := \<lambda>i. rnd w (i + k)\<rparr>)"
  using assms
proof (induction k arbitrary: ys w)
  case 0
  then show ?case by simp
next
  case (Suc k)
  then obtain y ys' where ys: "ys = y # ys'" by (cases ys) auto
  define w1 where "w1 = w\<lparr>rnd := \<lambda>i. rnd w (Suc i)\<rparr>"
  have r0: "rnd w 0 = length xs" using Suc.prems(1) by simp
  have rb: "randbelow (length (xs @ ys)) w = (length xs, w1)"
    by (simp add: randbelow_def next_raw_def r0 ys w1_def)
  have n: "(xs @ ys) ! length xs = y" by (simp add: ys)
  have t: "take (length xs) (xs @ ys) @ drop (Suc (length xs)) (xs @ ys) = xs @ ys'"
    by (simp add: ys)
  have "\<forall>i < k. rnd w1 i = length xs" using Suc.prems(1) by (simp add: w1_def)
  moreover have "k \<le> length ys'" using Suc.prems(2) by (simp add: ys)
  ultimately have ih:
    "sample_pool (xs @ ys') k w1 = (take k ys', w1\<lparr>rnd := \<lambda>i. rnd w1 (i + k)\<rparr>)"
    by (rule Suc.IH)
  have "sample_pool (xs @ ys) (Suc k) w
      = (y # take k ys', w1\<lparr>rnd := \<lambda>i. rnd w1 (i + k)\<rparr>)"
    unfolding sample_pool.simps rb Let_def prod.case n t ih ..
  then show ?case by (simp add: ys w1_def)
qed

lemma sample_example:
  "sample [0 ..< 1000] 10 example_draws
     = Inr ([3 ..< 13], example_draws\<lparr>rnd := \<lambda>i. rnd example_draws (i + 10)\<rparr>)"
proof -
  have e: "[0 ..< 1000] = [0 ..< 3] @ [3 ..< 1000]"
    using upt_add_eq_append [of 0 3 997] by simp
  have "sample_pool ([0 ..< 3] @ [3 ..< 1000]) 10 example_draws
      = (take 10 [3 ..< 1000], example_draws\<lparr>rnd := \<lambda>i. rnd example_draws (i + 10)\<rparr>)"
    by (rule sample_pool_draws) (simp_all add: example_draws_def)
  then show ?thesis unfolding sample_def e [symmetric] by (simp add: take_upt)
qed

lemma dup_loop_selected:
  assumes d: "dup_loop idxs cs w = Inr (cs', w')" and "distinct idxs"
    and "\<forall>i \<in> set idxs. i < length cs" and j: "j < length idxs"
  shows "\<exists>xs. dup_loop (take j idxs) cs w = Inr (xs, w\<lparr>rnd := \<lambda>i. rnd w (i + 2 * j)\<rparr>)
           \<and> length xs = length cs
           \<and> cs' ! (idxs ! j) =
               (cs ! (idxs ! j))
                 \<lparr>customer_name := customer_name (xs ! (rnd w (2 * j) mod length cs)),
                  email := (if rnd w (2 * j + 1) mod 2 ^ 53 < 2 ^ 52
                            then email (xs ! (rnd w (2 * j) mod length cs))
                            else email (cs ! (idxs ! j)))\<rparr>"
proof -
  define idx where "idx = idxs ! j"
  define rest where "rest = drop (Suc j) idxs"
  have split: "idxs = take j idxs @ idx # rest"
    using j by (simp add: idx_def rest_def id_take_nth_drop)
  have "and_then (dup_loop (take j idxs) cs w) (\<lambda>(xs, v). dup_loop (idx # rest) xs v)
          = Inr (cs', w')"
    using d dup_loop_append [of "take j idxs" "idx # rest" cs w] split by simp
  then obtain xs v where
    a: "dup_loop (take j idxs) cs w = Inr (xs, v)" and
    b: "dup_loop (idx # rest) xs v = Inr (cs', w')"
    by (auto simp: and_then_eq_Inr)
  have v: "v = w\<lparr>rnd := \<lambda>i. rnd w (i + 2 * j)\<rparr>" and lx: "length xs = length cs"
    using dup_loop_draws [OF a] j by simp_all
  have il: "idx < length cs" using assms(3) j by (simp add: idx_def)
  have "distinct (take j idxs @ idx # rest)" using assms(2) split by simp
  then have n1: "idx \<notin> set (take j idxs)" and n2: "idx \<notin> set rest" by auto
  have x: "xs ! idx = cs ! idx" using dup_loop_Inr(2) [OF a] il n1 by simp
  define row where
    "row = (xs ! idx)\<lparr>customer_name := customer_name (xs ! (rnd v 0 mod length xs)),
                      email := (if rnd v 1 mod 2 ^ 53 < 2 ^ 52
                                then email (xs ! (rnd v 0 mod length xs))
                                else email (xs ! idx))\<rparr>"
  have "dup_loop rest (xs[idx := row]) (v\<lparr>rnd := \<lambda>i. rnd v (i + 2)\<rparr>) = Inr (cs', w')"
    using b il lx unfolding dup_loop_pass row_def by (auto split: if_splits)
  from dup_loop_Inr(2) [OF this] have "cs' ! idx = xs[idx := row] ! idx"
    using il lx n2 by simp
  then have c: "cs' ! idx = row" using il lx by simp
  have r0: "rnd v 0 = rnd w (2 * j)" and r1: "rnd v 1 = rnd w (2 * j + 1)"
    by (simp_all add: v)
  have "cs' ! idx =
      (cs ! idx)\<lparr>customer_name := customer_name (xs ! (rnd w (2 * j) mod length cs)),
                 email := (if rnd w (2 * j + 1) mod 2 ^ 53 < 2 ^ 52
                           then email (xs ! (rnd w (2 * j) mod length cs))
                           else email (cs ! idx))\<rparr>"
    unfolding c row_def r0 r1 lx x ..
  then show ?thesis using a lx unfolding v idx_def by blast
qed

text \<open>
  Claim C10: the duplicate-identity step, run on the 1000 customer rows, samples 10
  distinct positions and runs the loop over them. Every row keeps its id, gender, date
  of birth, phone number, address, tier, registration date and total spent, and a row at
  a position that was not sampled is unchanged. The row at the \<open>j\<close>-th sampled position
  is the row it was with its name replaced, always, by the name of the source row, and
  its email replaced by the email of the source row exactly when the draw of
  \<open>random.random()\<close> falls in the lower half of its \<open>2^53\<close> equally likely outcomes;
  the source row is the row that \<open>random.choice\<close> draws from the list as the passes
  before have left it.
\<close>

theorem add_duplicates_frame:
  assumes "add_duplicates cs w = Inr (cs', w')" and "length cs = 1000"
  shows "\<exists>idxs w1.
           sample [0 ..< 1000] 10 w = Inr (idxs, w1)
           \<and> dup_loop idxs cs w1 = Inr (cs', w')
           \<and> length idxs = 10 \<and> distinct idxs \<and> (\<forall>i \<in> set idxs. i < 1000)
           \<and> length cs' = 1000
           \<and> (\<forall>i < 1000. same_but_name_email (cs ! i) (cs' ! i)
                  \<and> (i \<notin> set idxs \<longrightarrow> cs' ! i = cs ! i))
           \<and> (\<forall>j < 10. \<exists>xs.
                  dup_loop (take j idxs) cs w1
                    = Inr (xs, w1\<lparr>rnd := \<lambda>i. rnd w1 (i + 2 * j)\<rparr>)
                  \<and> length xs = 1000
                  \<and> cs' ! (idxs ! j) =
                      (cs ! (idxs ! j))
                        \<lparr>customer_name := customer_name (xs ! (rnd w1 (2 * j) mod 1000)),
                         email := (if rnd w1 (2 * j + 1) mod 2 ^ 53 < 2 ^ 52
                                   then email (xs ! (rnd w1 (2 * j) mod 1000))
                                   else email (cs ! (idxs ! j)))\<rparr>)"
proof -
  from assms obtain idxs w1 where
    s: "sample [0 ..< 1000] 10 w = Inr (idxs, w1)" and
    d: "dup_loop idxs cs w1 = Inr (cs', w')"
    by (auto simp: add_duplicates_def and_then_eq_Inr num_dup_1000)
  have l: "length idxs = 10" and di: "distinct idxs" and su: "set idxs \<subseteq> set [0 ..< 1000]"
    using sample_Inr [OF s] by simp_all
  have b: "\<forall>i \<in> set idxs. i < 1000" using su by auto
  have b': "\<forall>i \<in> set idxs. i < length cs" using b unfolding assms(2) .
  note r = dup_loop_Inr(1) [OF d]
  have l': "length cs' = 1000" using list_all2_lengthD [OF r] assms(2) by simp
  have f: "\<forall>i < 1000. same_but_name_email (cs ! i) (cs' ! i)
                  \<and> (i \<notin> set idxs \<longrightarrow> cs' ! i = cs ! i)"
  proof (intro allI impI)
    fix i :: nat assume "i < 1000"
    then have il: "i < length cs" unfolding assms(2) .
    show "same_but_name_email (cs ! i) (cs' ! i) \<and> (i \<notin> set idxs \<longrightarrow> cs' ! i = cs ! i)"
      using list_all2_nthD [OF r il] dup_loop_Inr(2) [OF d] il by blast
  qed
  have p: "\<forall>j < 10. \<exists>xs.
                  dup_loop (take j idxs) cs w1
                    = Inr (xs, w1\<lparr>rnd := \<lambda>i. rnd w1 (i + 2 * j)\<rparr>)
                  \<and> length xs = 1000
                  \<and> cs' ! (idxs ! j) =
                      (cs ! (idxs ! j))
                        \<lparr>customer_name := customer_name (xs ! (rnd w1 (2 * j) mod 1000)),
                         email := (if rnd w1 (2 * j + 1) mod 2 ^ 53 < 2 ^ 52
                                   then email (xs ! (rnd w1 (2 * j) mod 1000))
                                   else email (cs ! (idxs ! j)))\<rparr>"
  proof (intro allI impI)
    fix j :: nat assume "j < 10"
    then have j: "j < length idxs" unfolding l .
    show "\<exists>xs. dup_loop (take j idxs) cs w1
                    = Inr (xs, w1\<lparr>rnd := \<lambda>i. rnd w1 (i + 2 * j)\<rparr>)
                  \<and> length xs = 1000
                  \<and> cs' ! (idxs ! j) =
                      (cs ! (idxs ! j))
                        \<lparr>customer_name := customer_name (xs ! (rnd w1 (2 * j) mod 1000)),
                         email := (if rnd w1 (2 * j + 1) mod 2 ^ 53 < 2 ^ 52
                                   then email (xs ! (rnd w1 (2 * j) mod 1000))
                                   else email (cs ! (idxs ! j)))\<rparr>"
      using dup_loop_selected [OF d di b' j] unfolding assms(2) .
  qed
  show ?thesis
    by (rule exI [of _ idxs], rule exI [of _ w1], intro conjI s d l di b l' f p)
qed

lemma example_customers_length: "length example_customers = 1000"
  by (simp add: example_customers_def)

lemma example_customers_nth:
  "i < 1000 \<Longrightarrow> example_customers ! i =
     example_customer
       \<lparr>customer_id := int i + 1,
        customer_name := (if i = 3 then ''Bob Ray'' else ''Ann Lee''),
        email := (if i = 3 then Some ''bob@example.org'' else Some ''ann@example.org'')\<rparr>"
  by (simp add: example_customers_def)

lemma example_draws_rnd: "rnd example_draws i = (if i = 13 then 2 ^ 52 else 3)"
  by (simp add: example_draws_def)

lemma example_pass_3:
  assumes "rnd v 0 = 3"
  shows "dup_loop (3 # rest) example_customers v
       = dup_loop rest example_customers (v\<lparr>rnd := \<lambda>i. rnd v (i + 2)\<rparr>)"
proof -
  have ne: "\<not> (example_customers = [] \<or> length example_customers \<le> 3)"
    using example_customers_length by auto
  have m: "rnd v 0 mod length example_customers = 3"
    by (simp add: assms example_customers_length)
  have "(example_customers ! 3)
          \<lparr>customer_name := customer_name (example_customers ! 3),
           email := (if rnd v 1 mod 2 ^ 53 < 2 ^ 52 then email (example_customers ! 3)
                     else email (example_customers ! 3))\<rparr> = example_customers ! 3"
    by simp
  then show ?thesis unfolding dup_loop_pass m if_not_P [OF ne] by simp
qed

lemma example_pass_4:
  assumes "rnd v 0 = 3"
  shows "\<exists>row. dup_loop (4 # rest) example_customers v
       = dup_loop rest (example_customers[4 := row]) (v\<lparr>rnd := \<lambda>i. rnd v (i + 2)\<rparr>)"
proof -
  have ne: "\<not> (example_customers = [] \<or> length example_customers \<le> 4)"
    using example_customers_length by auto
  show ?thesis unfolding dup_loop_pass if_not_P [OF ne] by blast
qed

theorem add_duplicates_frame_witness:
  "\<exists>cs' w'. add_duplicates example_customers example_draws = Inr (cs', w')
     \<and> length example_customers = 1000
     \<and> customer_name (example_customers ! 4) = ''Ann Lee''
     \<and> cs' ! 4 = (example_customers ! 4)\<lparr>customer_name := ''Bob Ray''\<rparr>
     \<and> cs' ! 5 = (example_customers ! 5)
                    \<lparr>customer_name := ''Bob Ray'', email := Some ''bob@example.org''\<rparr>
     \<and> cs' ! 20 = example_customers ! 20"
proof -
  note l = example_customers_length
  obtain cs' w' where a: "add_duplicates example_customers example_draws = Inr (cs', w')"
    using add_duplicates_total [OF l] by blast
  define W where "W = example_draws\<lparr>rnd := \<lambda>i. rnd example_draws (i + 10)\<rparr>"
  from add_duplicates_frame [OF a l] obtain idxs w1 where
    s: "sample [0 ..< 1000] 10 example_draws = Inr (idxs, w1)" and
    f: "\<forall>i < 1000. same_but_name_email (example_customers ! i) (cs' ! i)
                  \<and> (i \<notin> set idxs \<longrightarrow> cs' ! i = example_customers ! i)" and
    p: "\<forall>j < 10. \<exists>xs.
                  dup_loop (take j idxs) example_customers w1
                    = Inr (xs, w1\<lparr>rnd := \<lambda>i. rnd w1 (i + 2 * j)\<rparr>)
                  \<and> length xs = 1000
                  \<and> cs' ! (idxs ! j) =
                      (example_customers ! (idxs ! j))
                        \<lparr>customer_name := customer_name (xs ! (rnd w1 (2 * j) mod 1000)),
                         email := (if rnd w1 (2 * j + 1) mod 2 ^ 53 < 2 ^ 52
                                   then email (xs ! (rnd w1 (2 * j) mod 1000))
                                   else email (example_customers ! (idxs ! j)))\<rparr>"
    by blast
  have i: "idxs = [3 ..< 13]" and w1: "w1 = W"
    using s unfolding sample_example W_def by simp_all
  have r: "rnd W k = (if k = 3 then 2 ^ 52 else 3)" for k
    by (simp add: W_def example_draws_rnd)
  have r0: "rnd W 0 = 3" and r2: "rnd W 2 = 3" and r3: "rnd W 3 = 2 ^ 52"
    and r4: "rnd W 4 = 3" and r5: "rnd W 5 = 3"
    by (simp_all add: r)
  have t1: "take 1 [3 ..< 13] = [3 :: nat]" and t2: "take 2 [3 ..< 13] = [3, 4 :: nat]"
    by (simp_all add: take_upt upt_rec)
  have n1: "[3 ..< 13] ! 1 = (4 :: nat)" and n2: "[3 ..< 13] ! 2 = (5 :: nat)" by simp_all
  have e3: "customer_name (example_customers ! 3) = ''Bob Ray''"
    "email (example_customers ! 3) = Some ''bob@example.org''"
    by (simp_all add: example_customers_nth)
  have e4: "customer_name (example_customers ! 4) = ''Ann Lee''"
    by (simp add: example_customers_nth)
  have "(1 :: nat) < 10" by simp
  with p obtain xs where
    x: "dup_loop (take 1 idxs) example_customers w1
          = Inr (xs, w1\<lparr>rnd := \<lambda>i. rnd w1 (i + 2 * 1)\<rparr>)" and
    c: "cs' ! (idxs ! 1) =
          (example_customers ! (idxs ! 1))
            \<lparr>customer_name := customer_name (xs ! (rnd w1 (2 * 1) mod 1000)),
             email := (if rnd w1 (2 * 1 + 1) mod 2 ^ 53 < 2 ^ 52
                       then email (xs ! (rnd w1 (2 * 1) mod 1000))
                       else email (example_customers ! (idxs ! 1)))\<rparr>"
    by blast
  have "dup_loop [3] example_customers W
          = Inr (example_customers, W\<lparr>rnd := \<lambda>i. rnd W (i + 2)\<rparr>)"
    unfolding example_pass_3 [OF r0] by simp
  then have xs: "xs = example_customers" using x unfolding i w1 t1 by simp
  have c4: "cs' ! 4 = (example_customers ! 4)\<lparr>customer_name := ''Bob Ray''\<rparr>"
    using c unfolding i w1 n1 xs by (simp add: r2 r3 e3)
  have "(2 :: nat) < 10" by simp
  with p obtain ys where
    y: "dup_loop (take 2 idxs) example_customers w1
          = Inr (ys, w1\<lparr>rnd := \<lambda>i. rnd w1 (i + 2 * 2)\<rparr>)" and
    d: "cs' ! (idxs ! 2) =
          (example_customers ! (idxs ! 2))
            \<lparr>customer_name := customer_name (ys ! (rnd w1 (2 * 2) mod 1000)),
             email := (if rnd w1 (2 * 2 + 1) mod 2 ^ 53 < 2 ^ 52
                       then email (ys ! (rnd w1 (2 * 2) mod 1000))
                       else email (example_customers ! (idxs ! 2)))\<rparr>"
    by blast
  have "dup_loop [4] example_customers (W\<lparr>rnd := \<lambda>i. rnd W (i + 2)\<rparr>)
          = Inr (ys, W\<lparr>rnd := \<lambda>i. rnd W (i + 2 * 2)\<rparr>)"
    using y unfolding i w1 t2 example_pass_3 [OF r0] .
  from dup_loop_Inr(2) [OF this] have ys: "ys ! 3 = example_customers ! 3"
    by (simp add: l)
  have c5: "cs' ! 5 = (example_customers ! 5)
                    \<lparr>customer_name := ''Bob Ray'', email := Some ''bob@example.org''\<rparr>"
    using d unfolding i w1 n2 by (simp add: r4 r5 e3 ys)
  have c20: "cs' ! 20 = example_customers ! 20" using f unfolding i by simp
  show ?thesis
    by (rule exI [of _ cs'], rule exI [of _ w'], intro conjI a l e4 c4 c5 c20)
qed

section \<open>The rows of a run\<close>

lemma main_rows:
  "\<exists>products w1 customers w2 st w3.
     gen_products [1 .. NUM_PRODUCTS] (seeded lib) = Inr (products, w1)
     \<and> gen_all_customers today w1 = Inr (customers, w2)
     \<and> gen_orders products w2 = Inr (st, w3)
     \<and> main lib today None = Inr (final_db products customers st)
     \<and> priced products \<and> map product_id products = [1 .. 300]
     \<and> map customer_id customers = [1 .. 1000]
     \<and> (\<forall>c \<in> set customers. total_spent c = 0)
     \<and> order_inv products st \<and> length (orders st) = 1414
     \<and> map order_id (orders st) = [1 .. 1414]
     \<and> (\<forall>k. 1400 \<le> k \<and> k < 1414
            \<longrightarrow> near_duplicate products (orders st) (order_items st) k)"
proof -
  obtain products w1 customers w2 st w3 where
    gp: "gen_products [1 .. NUM_PRODUCTS] (seeded lib) = Inr (products, w1)" and
    gc: "gen_all_customers today w1 = Inr (customers, w2)" and
    go: "gen_orders products w2 = Inr (st, w3)" and
    m: "main lib today None = Inr (final_db products customers st)"
    using main_fresh by blast
  have pr: "priced products" using gen_products_priced [OF gp] .
  have pi: "map product_id products = [1 .. 300]"
    using gen_products_Inr(1) [OF gp] by (simp add: NUM_PRODUCTS_def)
  have ci: "map customer_id customers = [1 .. 1000]"
    using gen_all_customers_Inr(1) [OF gc] by (simp add: NUM_CUSTOMERS_def)
  note ct = gen_all_customers_Inr(2) [OF gc]
  note O = gen_orders_Inr [OF go pr]
  note ids = gen_orders_ids [OF go pr]
  show ?thesis
    by (rule exI [of _ products], rule exI [of _ w1], rule exI [of _ customers],
        rule exI [of _ w2], rule exI [of _ st], rule exI [of _ w3],
        intro conjI gp gc go m pr pi ci ct O ids)
qed

lemma order_inv_items_nonempty:
  assumes "order_inv products st" and "ord \<in> set (orders st)"
  shows "items_of (order_items st) (order_id ord) \<noteq> []"
proof
  assume e: "items_of (order_items st) (order_id ord) = []"
  have "9/2 \<le> order_total ord" and
    "order_total ord = round2 (float_sum (map line_total
        (items_of (order_items st) (order_id ord))))"
    using assms unfolding order_inv_def by (auto simp: list_all_iff)
  then have "9/2 \<le> round2 (float_sum [])" unfolding e by simp
  then show False by (simp add: float_sum_def round2_def rne_def fl_0)
qed

lemma order_inv_order:
  assumes "order_inv products st" and "ord \<in> set (orders st)"
  shows "1 \<le> o_customer_id ord" and "o_customer_id ord \<le> 1000"
    and "9/2 \<le> order_total ord"
    and "order_total ord = round2 (float_sum (map line_total
            (items_of (order_items st) (order_id ord))))"
  using assms unfolding order_inv_def by (auto simp: list_all_iff NUM_CUSTOMERS_def)

lemma order_inv_item:
  assumes "order_inv products st" and "i \<in> set (order_items st)"
  shows "good_item products (i_order_id i) i" and "1 \<le> i_order_id i"
    and "i_order_id i < order_id_seq st" and "9/2 \<le> line_total i"
  using assms unfolding order_inv_def by (auto simp: list_all_iff)

lemma order_inv_shipment:
  assumes "order_inv products st" and "s \<in> set (shipments st)"
  shows "\<exists>ord \<in> set (orders st). good_shipment (order_id ord) (order_date ord) s"
  using assms unfolding order_inv_def by (auto simp: list_all_iff)

section \<open>Order totals and the CHECK constraints\<close>

lemma price_floor: "round2 (fmul (fmul PRICE_MIN 1) (fsub 1 (fl (1/10)))) = 9/2"
  unfolding PRICE_MIN_def by code_simp

lemma good_item_fields:
  assumes "good_item products oid i" and "priced products"
  shows "1 \<le> quantity i" and "quantity i \<le> 5" and "5 \<le> unit_price i"
    and "unit_price i \<le> 1000"
  using assms unfolding good_item_def priced_def by (auto simp: list_all_iff)

text \<open>
  Claim C9: a run on a fresh database file succeeds, so no constraint fires. Every
  product is priced at \<open>PRICE_MIN\<close> = 5 or more, every order item has a quantity of at
  least 1 and a discount of at most 10%, so every line total and every order total is at
  least \<open>round(5 * 1 * (1 - 0.1), 2)\<close> = 4.5 and positive; the CHECK branches of the two
  insertions are therefore never taken for a generated row, whatever the tables hold:
  inserting it can only fail on a key.
\<close>

theorem order_totals_positive:
  "\<exists>products w1 customers w2 st w3 db.
     gen_products [1 .. NUM_PRODUCTS] (seeded lib) = Inr (products, w1)
     \<and> gen_all_customers today w1 = Inr (customers, w2)
     \<and> gen_orders products w2 = Inr (st, w3)
     \<and> main lib today None = Inr db
     \<and> Orders db = orders st \<and> Order_Items db = order_items st
     \<and> length (orders st) = 1414
     \<and> round2 (fmul (fmul PRICE_MIN 1) (fsub 1 (fl (1/10)))) = 9/2
     \<and> (\<forall>p \<in> set products. PRICE_MIN \<le> price p)
     \<and> (\<forall>d \<in> set discount_pool. d \<le> fl (1/10))
     \<and> (\<forall>i \<in> set (order_items st).
            1 \<le> quantity i \<and> PRICE_MIN \<le> unit_price i \<and> 9/2 \<le> line_total i
            \<and> (\<forall>d. insert_order_item i d = Inl IntegrityError \<longrightarrow>
                   (i_order_id i, item_no i)
                      \<in> set (map (\<lambda>r. (i_order_id r, item_no r)) (Order_Items d))
                   \<or> i_order_id i \<notin> set (map order_id (Orders d))
                   \<or> i_product_id i \<notin> set (map product_id (Products d))))
     \<and> (\<forall>ord \<in> set (orders st).
            items_of (order_items st) (order_id ord) \<noteq> []
            \<and> 9/2 \<le> order_total ord \<and> 0 < order_total ord
            \<and> (\<forall>d. insert_order ord d = Inl IntegrityError \<longrightarrow>
                   order_id ord \<in> set (map order_id (Orders d))
                   \<or> o_customer_id ord \<notin> set (map customer_id (Customers d))))"
proof -
  obtain products w1 customers w2 st w3 where
    gp: "gen_products [1 .. NUM_PRODUCTS] (seeded lib) = Inr (products, w1)" and
    gc: "gen_all_customers today w1 = Inr (customers, w2)" and
    go: "gen_orders products w2 = Inr (st, w3)" and
    m: "main lib today None = Inr (final_db products customers st)" and
    pr: "priced products" and inv: "order_inv products st" and
    l: "length (orders st) = 1414"
    using main_rows [of lib today] by blast
  define db where "db = final_db products customers st"
  have m': "main lib today None = Inr db" using m by (simp add: db_def)
  have o: "Orders db = orders st" and oi: "Order_Items db = order_items st"
    by (simp_all add: db_def final_db_def)
  have pm: "\<forall>p \<in> set products. PRICE_MIN \<le> price p"
    using pr by (auto simp: priced_def list_all_iff PRICE_MIN_def)
  have dp: "\<forall>d \<in> set discount_pool. d \<le> fl (1/10)" using discount_range(2) by blast
  have it: "\<forall>i \<in> set (order_items st).
            1 \<le> quantity i \<and> PRICE_MIN \<le> unit_price i \<and> 9/2 \<le> line_total i
            \<and> (\<forall>d. insert_order_item i d = Inl IntegrityError \<longrightarrow>
                   (i_order_id i, item_no i)
                      \<in> set (map (\<lambda>r. (i_order_id r, item_no r)) (Order_Items d))
                   \<or> i_order_id i \<notin> set (map order_id (Orders d))
                   \<or> i_product_id i \<notin> set (map product_id (Products d)))"
  proof
    fix i assume i: "i \<in> set (order_items st)"
    note g = order_inv_item(1) [OF inv i]
    note f = good_item_fields [OF g pr]
    note lt = order_inv_item(4) [OF inv i]
    have n: "\<not> (quantity i < 0 \<or> unit_price i < 0 \<or> line_total i < 0)"
      using f(1,3) lt by simp
    have "\<forall>d. insert_order_item i d = Inl IntegrityError \<longrightarrow>
                   (i_order_id i, item_no i)
                      \<in> set (map (\<lambda>r. (i_order_id r, item_no r)) (Order_Items d))
                   \<or> i_order_id i \<notin> set (map order_id (Orders d))
                   \<or> i_product_id i \<notin> set (map product_id (Products d))"
      unfolding insert_order_item_def if_not_P [OF n] by (auto split: if_splits)
    then show "1 \<le> quantity i \<and> PRICE_MIN \<le> unit_price i \<and> 9/2 \<le> line_total i
            \<and> (\<forall>d. insert_order_item i d = Inl IntegrityError \<longrightarrow>
                   (i_order_id i, item_no i)
                      \<in> set (map (\<lambda>r. (i_order_id r, item_no r)) (Order_Items d))
                   \<or> i_order_id i \<notin> set (map order_id (Orders d))
                   \<or> i_product_id i \<notin> set (map product_id (Products d)))"
      using f(1,3) lt by (simp add: PRICE_MIN_def)
  qed
  have ot: "\<forall>ord \<in> set (orders st).
            items_of (order_items st) (order_id ord) \<noteq> []
            \<and> 9/2 \<le> order_total ord \<and> 0 < order_total ord
            \<and> (\<forall>d. insert_order ord d = Inl IntegrityError \<longrightarrow>
                   order_id ord \<in> set (map order_id (Orders d))
                   \<or> o_customer_id ord \<notin> set (map customer_id (Customers d)))"
  proof
    fix ord assume i: "ord \<in> set (orders st)"
    note ne = order_inv_items_nonempty [OF inv i]
    note lo = order_inv_order(3) [OF inv i]
    have n: "\<not> order_total ord < 0" using lo by simp
    have "\<forall>d. insert_order ord d = Inl IntegrityError \<longrightarrow>
                   order_id ord \<in> set (map order_id (Orders d))
                   \<or> o_customer_id ord \<notin> set (map customer_id (Customers d))"
      unfolding insert_order_def if_not_P [OF n] by (auto split: if_splits)
    then show "items_of (order_items st) (order_id ord) \<noteq> []
            \<and> 9/2 \<le> order_total ord \<and> 0 < order_total ord
            \<and> (\<forall>d. insert_order ord d = Inl IntegrityError \<longrightarrow>
                   order_id ord \<in> set (map order_id (Orders d))
                   \<or> o_customer_id ord \<notin> set (map customer_id (Customers d)))"
      using ne lo by simp
  qed
  show ?thesis
    by (rule exI [of _ products], rule exI [of _ w1], rule exI [of _ customers],
        rule exI [of _ w2], rule exI [of _ st], rule exI [of _ w3], rule exI [of _ db],
        intro conjI gp gc go m' o oi l price_floor pm dp it ot)
qed

theorem order_totals_positive_witness:
  "\<exists>db. main example_seeding 739000 None = Inr db
     \<and> Orders db \<noteq> [] \<and> Order_Items db \<noteq> []
     \<and> hd (Orders db) \<in> set (Orders db) \<and> hd (Order_Items db) \<in> set (Order_Items db)
     \<and> 9/2 \<le> order_total (hd (Orders db)) \<and> 9/2 \<le> line_total (hd (Order_Items db))
     \<and> insert_order (hd (Orders db)) db = Inl IntegrityError
     \<and> order_id (hd (Orders db)) \<in> set (map order_id (Orders db))
     \<and> insert_order_item (hd (Order_Items db)) db = Inl IntegrityError
     \<and> (i_order_id (hd (Order_Items db)), item_no (hd (Order_Items db)))
          \<in> set (map (\<lambda>r. (i_order_id r, item_no r)) (Order_Items db))"
proof -
  from order_totals_positive [of example_seeding 739000]
  obtain st :: gen_state and db where
    m: "main example_seeding 739000 None = Inr db" and
    o: "Orders db = orders st" and oi: "Order_Items db = order_items st" and
    l: "length (orders st) = 1414" and
    it: "\<forall>i \<in> set (order_items st).
            1 \<le> quantity i \<and> PRICE_MIN \<le> unit_price i \<and> 9/2 \<le> line_total i
            \<and> (\<forall>d. insert_order_item i d = Inl IntegrityError \<longrightarrow>
                   (i_order_id i, item_no i)
                      \<in> set (map (\<lambda>r. (i_order_id r, item_no r)) (Order_Items d))
                   \<or> i_order_id i \<notin> set (map order_id (Orders d))
                   \<or> i_product_id i \<notin> set (map product_id (Products d)))" and
    ot: "\<forall>ord \<in> set (orders st).
            items_of (order_items st) (order_id ord) \<noteq> []
            \<and> 9/2 \<le> order_total ord \<and> 0 < order_total ord
            \<and> (\<forall>d. insert_order ord d = Inl IntegrityError \<longrightarrow>
                   order_id ord \<in> set (map order_id (Orders d))
                   \<or> o_customer_id ord \<notin> set (map customer_id (Customers d)))"
    by blast
  have ne: "Orders db \<noteq> []" using l o by auto
  then have h: "hd (Orders db) \<in> set (Orders db)" by simp
  have "items_of (Order_Items db) (order_id (hd (Orders db))) \<noteq> []"
    using ot h unfolding o oi by blast
  then have ne': "Order_Items db \<noteq> []" by (auto simp: items_of_def)
  then have h': "hd (Order_Items db) \<in> set (Order_Items db)" by simp
  have a: "9/2 \<le> order_total (hd (Orders db))" using ot h unfolding o by blast
  have b: "9/2 \<le> line_total (hd (Order_Items db))" using it h' unfolding oi by blast
  have c: "order_id (hd (Orders db)) \<in> set (map order_id (Orders db))" using h by simp
  then have d: "insert_order (hd (Orders db)) db = Inl IntegrityError"
    by (simp add: insert_order_def)
  have e: "(i_order_id (hd (Order_Items db)), item_no (hd (Order_Items db)))
          \<in> set (map (\<lambda>r. (i_order_id r, item_no r)) (Order_Items db))"
    using h' by (simp add: image_iff) blast
  then have f: "insert_order_item (hd (Order_Items db)) db = Inl IntegrityError"
    by (simp add: insert_order_item_def)
  show ?thesis by (rule exI [of _ db], intro conjI m ne ne' h h' a b d c f e)
qed

section \<open>Order totals and line totals\<close>

text \<open>
  Claim C2: a run on a fresh database file stores 1414 orders, the 1400 base orders and
  the 14 near-duplicates. Every one of them has order items, and its \<open>order_total\<close> is the
  sum of the \<open>line_total\<close> values of the Order_Items rows with its order id, accumulated
  as the order loop does, rounded to 2 decimals; it is not negative.
\<close>

theorem order_total_is_rounded_sum:
  "\<exists>products w1 customers w2 st w3 db.
     gen_products [1 .. NUM_PRODUCTS] (seeded lib) = Inr (products, w1)
     \<and> gen_all_customers today w1 = Inr (customers, w2)
     \<and> gen_orders products w2 = Inr (st, w3)
     \<and> main lib today None = Inr db
     \<and> Orders db = orders st \<and> Order_Items db = order_items st
     \<and> length (Orders db) = 1414
     \<and> (\<forall>ord \<in> set (Orders db).
            items_of (Order_Items db) (order_id ord) \<noteq> []
            \<and> order_total ord
                 = round2 (float_sum (map line_total
                     (items_of (Order_Items db) (order_id ord))))
            \<and> 0 \<le> order_total ord)"
proof -
  obtain products w1 customers w2 st w3 where
    gp: "gen_products [1 .. NUM_PRODUCTS] (seeded lib) = Inr (products, w1)" and
    gc: "gen_all_customers today w1 = Inr (customers, w2)" and
    go: "gen_orders products w2 = Inr (st, w3)" and
    m: "main lib today None = Inr (final_db products customers st)" and
    inv: "order_inv products st" and l: "length (orders st) = 1414"
    using main_rows [of lib today] by blast
  define db where "db = final_db products customers st"
  have m': "main lib today None = Inr db" using m by (simp add: db_def)
  have o: "Orders db = orders st" and oi: "Order_Items db = order_items st"
    by (simp_all add: db_def final_db_def)
  have l': "length (Orders db) = 1414" using l o by simp
  have a: "\<forall>ord \<in> set (Orders db).
            items_of (Order_Items db) (order_id ord) \<noteq> []
            \<and> order_total ord
                 = round2 (float_sum (map line_total
                     (items_of (Order_Items db) (order_id ord))))
            \<and> 0 \<le> order_total ord"
    unfolding o oi
  proof
    fix ord assume i: "ord \<in> set (orders st)"
    show "items_of (order_items st) (order_id ord) \<noteq> []
            \<and> order_total ord
                 = round2 (float_sum (map line_total
                     (items_of (order_items st) (order_id ord))))
            \<and> 0 \<le> order_total ord"
      using order_inv_items_nonempty [OF inv i] order_inv_order(3,4) [OF inv i] by simp
  qed
  show ?thesis
    by (rule exI [of _ products], rule exI [of _ w1], rule exI [of _ customers],
        rule exI [of _ w2], rule exI [of _ st], rule exI [of _ w3], rule exI [of _ db],
        intro conjI gp gc go m' o oi l' a)
qed

theorem order_total_is_rounded_sum_witness:
  "\<exists>db. main example_seeding 739000 None = Inr db
     \<and> length (Orders db) = 1414
     \<and> Orders db ! 0 \<in> set (Orders db) \<and> Orders db ! 1413 \<in> set (Orders db)
     \<and> items_of (Order_Items db) (order_id (Orders db ! 0)) \<noteq> []
     \<and> order_total (Orders db ! 0)
         = round2 (float_sum (map line_total
             (items_of (Order_Items db) (order_id (Orders db ! 0)))))
     \<and> order_total (Orders db ! 1413)
         = round2 (float_sum (map line_total
             (items_of (Order_Items db) (order_id (Orders db ! 1413)))))
     \<and> 0 \<le> order_total (Orders db ! 0)"
proof -
  from order_total_is_rounded_sum [of example_seeding 739000] obtain db where
    m: "main example_seeding 739000 None = Inr db" and l: "length (Orders db) = 1414" and
    a: "\<forall>ord \<in> set (Orders db).
            items_of (Order_Items db) (order_id ord) \<noteq> []
            \<and> order_total ord
                 = round2 (float_sum (map line_total
                     (items_of (Order_Items db) (order_id ord))))
            \<and> 0 \<le> order_total ord"
    by blast
  have h0: "Orders db ! 0 \<in> set (Orders db)" and h1: "Orders db ! 1413 \<in> set (Orders db)"
    using l by simp_all
  show ?thesis using m l h0 h1 a by blast
qed

section \<open>The near-duplicate orders\<close>

text \<open>
  Claim C7: the orders at the positions 1400, ..., 1413 of the Orders table are the
  near-duplicates; the 1400 rows before them are those of the base loop. Each of them has
  customer id, order date and promo code of an order at an earlier position, exactly one
  order item, with item number 1 and quantity 1, whose product id and unit price are those
  of a product of the catalog, and its order total is the line total of that item.
\<close>

theorem near_duplicate_orders:
  "\<exists>products w1 customers w2 base w3 st w4 db.
     gen_products [1 .. NUM_PRODUCTS] (seeded lib) = Inr (products, w1)
     \<and> gen_all_customers today w1 = Inr (customers, w2)
     \<and> order_loop NUM_ORDERS products init_state w2 = Inr (base, w3)
     \<and> length (orders base) = 1400
     \<and> dup_order_loop 14 products base w3 = Inr (st, w4)
     \<and> main lib today None = Inr db
     \<and> Products db = products \<and> Orders db = orders st \<and> Order_Items db = order_items st
     \<and> take 1400 (Orders db) = orders base
     \<and> length (Orders db) = 1414
     \<and> (\<forall>k. 1400 \<le> k \<and> k < 1414
            \<longrightarrow> near_duplicate (Products db) (Orders db) (Order_Items db) k)"
proof -
  obtain products w1 customers w2 st w4 where
    gp: "gen_products [1 .. NUM_PRODUCTS] (seeded lib) = Inr (products, w1)" and
    gc: "gen_all_customers today w1 = Inr (customers, w2)" and
    go: "gen_orders products w2 = Inr (st, w4)" and
    m: "main lib today None = Inr (final_db products customers st)" and
    l: "length (orders st) = 1414" and
    nd: "\<forall>k. 1400 \<le> k \<and> k < 1414
            \<longrightarrow> near_duplicate products (orders st) (order_items st) k"
    using main_rows [of lib today] by blast
  from gen_orders_split [OF go] obtain base w3 where
    b: "order_loop NUM_ORDERS products init_state w2 = Inr (base, w3)" and
    lb: "length (orders base) = 1400" and
    d: "dup_order_loop 14 products base w3 = Inr (st, w4)" and
    t: "take 1400 (orders st) = orders base" by blast
  define db where "db = final_db products customers st"
  have m': "main lib today None = Inr db" using m by (simp add: db_def)
  have p: "Products db = products" and o: "Orders db = orders st"
    and oi: "Order_Items db = order_items st"
    by (simp_all add: db_def final_db_def)
  have t': "take 1400 (Orders db) = orders base" using t o by simp
  have l': "length (Orders db) = 1414" using l o by simp
  have nd': "\<forall>k. 1400 \<le> k \<and> k < 1414
            \<longrightarrow> near_duplicate (Products db) (Orders db) (Order_Items db) k"
    using nd unfolding p o oi .
  show ?thesis
    by (rule exI [of _ products], rule exI [of _ w1], rule exI [of _ customers],
        rule exI [of _ w2], rule exI [of _ base], rule exI [of _ w3], rule exI [of _ st],
        rule exI [of _ w4], rule exI [of _ db],
        intro conjI gp gc b lb d m' p o oi t' l' nd')
qed

theorem near_duplicate_orders_witness:
  "\<exists>db. main example_seeding 739000 None = Inr db
     \<and> length (Orders db) = 1414
     \<and> (\<exists>j it. j < 1400
          \<and> o_customer_id (Orders db ! 1400) = o_customer_id (Orders db ! j)
          \<and> order_date (Orders db ! 1400) = order_date (Orders db ! j)
          \<and> promo_code (Orders db ! 1400) = promo_code (Orders db ! j)
          \<and> items_of (Order_Items db) (order_id (Orders db ! 1400)) = [it]
          \<and> item_no it = 1 \<and> quantity it = 1
          \<and> i_product_id it \<in> set (map product_id (Products db))
          \<and> order_total (Orders db ! 1400) = line_total it)"
proof -
  from near_duplicate_orders [of example_seeding 739000] obtain db where
    m: "main example_seeding 739000 None = Inr db" and l: "length (Orders db) = 1414" and
    nd: "\<forall>k. 1400 \<le> k \<and> k < 1414
            \<longrightarrow> near_duplicate (Products db) (Orders db) (Order_Items db) k"
    by blast
  have "near_duplicate (Products db) (Orders db) (Order_Items db) 1400" using nd by simp
  then have "\<exists>j it. j < 1400
          \<and> o_customer_id (Orders db ! 1400) = o_customer_id (Orders db ! j)
          \<and> order_date (Orders db ! 1400) = order_date (Orders db ! j)
          \<and> promo_code (Orders db ! 1400) = promo_code (Orders db ! j)
          \<and> items_of (Order_Items db) (order_id (Orders db ! 1400)) = [it]
          \<and> item_no it = 1 \<and> quantity it = 1
          \<and> i_product_id it \<in> set (map product_id (Products db))
          \<and> order_total (Orders db ! 1400) = line_total it"
    unfolding near_duplicate_def by (auto simp: image_iff)
  then show ?thesis using m l by blast
qed

section \<open>Referential integrity\<close>

lemma with_totals_ids: "map customer_id (with_totals os cs) = map customer_id cs"
  by (simp add: with_totals_def comp_def)

lemma number_from_order_ids: "map s_order_id (number_from k rs) = map s_order_id rs"
  by (induction rs arbitrary: k) simp_all

lemma good_item_product:
  "good_item products oid i \<Longrightarrow> i_product_id i \<in> set (map product_id products)"
  unfolding good_item_def by auto

text \<open>
  Claim C8: after a run on a fresh database file the Customers table holds the customer
  ids 1, ..., 1000, the Products table the product ids 1, ..., 300 and the Orders table
  the order ids 1, ..., 1414. The customer id of every order is one of the 1000 customer
  ids, the order id of every order item and of every shipment is one of the 1414 order
  ids, and the product id of every order item is one of the 300 product ids.
\<close>

theorem referential_integrity:
  "\<exists>products w1 customers w2 st w3 db.
     gen_products [1 .. NUM_PRODUCTS] (seeded lib) = Inr (products, w1)
     \<and> gen_all_customers today w1 = Inr (customers, w2)
     \<and> gen_orders products w2 = Inr (st, w3)
     \<and> main lib today None = Inr db
     \<and> Products db = products \<and> Orders db = orders st \<and> Order_Items db = order_items st
     \<and> map s_order_id (Shipments db) = map s_order_id (shipments st)
     \<and> map customer_id (Customers db) = map customer_id customers
     \<and> map customer_id (Customers db) = [1 .. 1000]
     \<and> map product_id (Products db) = [1 .. 300]
     \<and> map order_id (Orders db) = [1 .. 1414]
     \<and> (\<forall>ord \<in> set (Orders db).
            o_customer_id ord \<in> set (map customer_id (Customers db)))
     \<and> (\<forall>i \<in> set (Order_Items db).
            i_order_id i \<in> set (map order_id (Orders db))
            \<and> i_product_id i \<in> set (map product_id (Products db)))
     \<and> (\<forall>s \<in> set (Shipments db). s_order_id s \<in> set (map order_id (Orders db)))"
proof -
  obtain products w1 customers w2 st w3 where
    gp: "gen_products [1 .. NUM_PRODUCTS] (seeded lib) = Inr (products, w1)" and
    gc: "gen_all_customers today w1 = Inr (customers, w2)" and
    go: "gen_orders products w2 = Inr (st, w3)" and
    m: "main lib today None = Inr (final_db products customers st)" and
    pr: "priced products" and pi: "map product_id products = [1 .. 300]" and
    ci: "map customer_id customers = [1 .. 1000]" and
    inv: "order_inv products st" and l: "length (orders st) = 1414" and
    ids: "map order_id (orders st) = [1 .. 1414]"
    using main_rows [of lib today] by blast
  define db where "db = final_db products customers st"
  have m': "main lib today None = Inr db" using m by (simp add: db_def)
  have p: "Products db = products" and o: "Orders db = orders st"
    and oi: "Order_Items db = order_items st"
    by (simp_all add: db_def final_db_def)
  have sh: "map s_order_id (Shipments db) = map s_order_id (shipments st)"
    by (simp add: db_def final_db_def number_from_order_ids)
  have cc: "map customer_id (Customers db) = map customer_id customers"
    by (simp add: db_def final_db_def with_totals_ids)
  have c: "map customer_id (Customers db) = [1 .. 1000]" unfolding cc ci ..
  have p': "map product_id (Products db) = [1 .. 300]" unfolding p pi ..
  have o': "map order_id (Orders db) = [1 .. 1414]" unfolding o ids ..
  have q: "order_id_seq st = 1415"
  proof -
    have "map order_id (orders st) = [1 .. order_id_seq st - 1]" and "1 \<le> order_id_seq st"
      using inv unfolding order_inv_def by blast+
    then have "length [1 .. order_id_seq st - 1] = 1414" using l by (metis length_map)
    then show ?thesis using \<open>1 \<le> order_id_seq st\<close> by simp
  qed
  have a: "\<forall>ord \<in> set (Orders db).
            o_customer_id ord \<in> set (map customer_id (Customers db))"
    unfolding c o using order_inv_order(1,2) [OF inv] by simp
  have b: "\<forall>i \<in> set (Order_Items db).
            i_order_id i \<in> set (map order_id (Orders db))
            \<and> i_product_id i \<in> set (map product_id (Products db))"
    unfolding o' oi p
  proof
    fix i assume i: "i \<in> set (order_items st)"
    show "i_order_id i \<in> set [1 .. 1414] \<and> i_product_id i \<in> set (map product_id products)"
      using order_inv_item(2,3) [OF inv i] good_item_product [OF order_inv_item(1) [OF inv i]]
      by (simp add: q)
  qed
  have "\<forall>x \<in> set (map s_order_id (shipments st)). x \<in> set (map order_id (orders st))"
  proof
    fix x assume "x \<in> set (map s_order_id (shipments st))"
    then obtain s where s: "s \<in> set (shipments st)" and x: "x = s_order_id s" by auto
    from order_inv_shipment [OF inv s] obtain ord where
      "ord \<in> set (orders st)" "good_shipment (order_id ord) (order_date ord) s" by blast
    then show "x \<in> set (map order_id (orders st))"
      unfolding x good_shipment_def by auto
  qed
  then have d: "\<forall>s \<in> set (Shipments db). s_order_id s \<in> set (map order_id (Orders db))"
    unfolding sh [symmetric] o by simp
  show ?thesis
    by (rule exI [of _ products], rule exI [of _ w1], rule exI [of _ customers],
        rule exI [of _ w2], rule exI [of _ st], rule exI [of _ w3], rule exI [of _ db],
        intro conjI gp gc go m' p o oi sh cc c p' o' a b d)
qed

section \<open>A run on constant draws\<close>

text \<open>
  When every raw draw is the same number and every Faker text the same text, a draw
  leaves the streams as they are, and so does every generation step.
\<close>

lemma uniform_const:
  "uniform a b (const_world r)
     = (fadd a (fmul (fsub b a) (of_nat (r mod 2 ^ 53) / 2 ^ 53)), const_world r)"
  by (simp add: uniform_def random_random_const)

lemma randint_const_world: "randint a b (const_world r) = Inr (k, w') \<Longrightarrow> w' = const_world r"
  by (auto simp: randint_def randbelow_const split: if_splits)

lemma choice_const_world: "choice xs (const_world r) = Inr (x, w') \<Longrightarrow> w' = const_world r"
  by (auto simp: choice_def randbelow_const split: if_splits)

lemma choices_const_world:
  "choices pop ws (const_world r) = Inr (x, w') \<Longrightarrow> w' = const_world r"
  by (auto simp: choices_def random_random_const Let_def split: if_splits)

lemma rand_date_const_world:
  "rand_date y1 y2 (const_world r) = Inr (d, w') \<Longrightarrow> w' = const_world r"
  by (auto simp: rand_date_def Let_def and_then_eq_Inr dest: randint_const_world)

lemma gen_product_const_world:
  assumes "gen_product pid (const_world r) = Inr (p, w')"
  shows "w' = const_world r"
  using assms
  by (auto simp: gen_product_def and_then_eq_Inr Let_def case_prod_unfold fake_word_def
      next_fake_const uniform_const
      dest!: randint_const_world choice_const_world)

lemma gen_products_const_world:
  "gen_products pids (const_world r) = Inr (ps, w') \<Longrightarrow> w' = const_world r"
proof (induction pids arbitrary: ps)
  case Nil
  then show ?case by simp
next
  case (Cons pid pids)
  from Cons.prems obtain p w1 ps' where
    1: "gen_product pid (const_world r) = Inr (p, w1)" and
    2: "gen_products pids w1 = Inr (ps', w')"
    by (auto simp: and_then_eq_Inr case_prod_unfold)
  have "w1 = const_world r" using gen_product_const_world [OF 1] .
  then show ?case using 2 Cons.IH by simp
qed

lemma gen_customer_const_world:
  assumes "gen_customer today cid (const_world r) = Inr (c, w')"
  shows "w' = const_world r"
  using assms
  by (auto simp: gen_customer_def and_then_eq_Inr Let_def case_prod_unfold fake_name_def
      fake_email_def fake_phone_number_def fake_address_def next_fake_const
      dest!: randint_const_world choice_const_world choices_const_world rand_date_const_world)

lemma gen_customers_const_world:
  "gen_customers today cids (const_world r) = Inr (cs, w') \<Longrightarrow> w' = const_world r"
proof (induction cids arbitrary: cs)
  case Nil
  then show ?case by simp
next
  case (Cons cid cids)
  from Cons.prems obtain c w1 cs' where
    1: "gen_customer today cid (const_world r) = Inr (c, w1)" and
    2: "gen_customers today cids w1 = Inr (cs', w')"
    by (auto simp: and_then_eq_Inr case_prod_unfold)
  have "w1 = const_world r" using gen_customer_const_world [OF 1] .
  then show ?case using 2 Cons.IH by simp
qed

lemma sample_pool_const_world: "snd (sample_pool pool k (const_world r)) = const_world r"
  by (induction k arbitrary: pool) (simp_all add: randbelow_const case_prod_unfold Let_def)

lemma sample_const_world: "sample pool k (const_world r) = Inr (xs, w') \<Longrightarrow> w' = const_world r"
  using sample_pool_const_world [of pool "nat k" r]
  by (auto simp: sample_def split: if_splits)

lemma missing_loop_const_world:
  "missing_loop idxs cs (const_world r) = Inr (cs', w') \<Longrightarrow> w' = const_world r"
proof (induction idxs arbitrary: cs)
  case Nil
  then show ?case by simp
next
  case (Cons idx idxs)
  then show ?case
    by (auto simp: and_then_eq_Inr case_prod_unfold split: if_splits
        dest!: choice_const_world)
qed

lemma dup_loop_const_world:
  "dup_loop idxs cs (const_world r) = Inr (cs', w') \<Longrightarrow> w' = const_world r"
proof (induction idxs arbitrary: cs)
  case Nil
  then show ?case by simp
next
  case (Cons idx idxs)
  have e: "(const_world r)\<lparr>rnd := \<lambda>i. rnd (const_world r) (i + 2)\<rparr> = const_world r"
    by (simp add: const_world_def)
  show ?case using Cons.prems unfolding dup_loop_pass e
    by (auto split: if_splits dest: Cons.IH)
qed

lemma gen_all_customers_const_world:
  assumes "gen_all_customers today (const_world r) = Inr (cs, w')"
  shows "w' = const_world r"
proof -
  from assms obtain cs0 w0 cs1 w1 where
    g: "gen_customers today [1 .. NUM_CUSTOMERS] (const_world r) = Inr (cs0, w0)" and
    m: "add_missing cs0 w0 = Inr (cs1, w1)" and
    d: "add_duplicates cs1 w1 = Inr (cs, w')"
    by (auto simp: gen_all_customers_def and_then_eq_Inr case_prod_unfold)
  have w0: "w0 = const_world r" using gen_customers_const_world [OF g] .
  from m obtain idxs v where
    s: "sample [0 ..< length cs0] (num_missing cs0) (const_world r) = Inr (idxs, v)" and
    l: "missing_loop idxs cs0 v = Inr (cs1, w1)"
    unfolding w0 add_missing_def by (auto simp: and_then_eq_Inr)
  have w1: "w1 = const_world r"
    using l missing_loop_const_world unfolding sample_const_world [OF s] by blast
  from d obtain idxs' v' where
    s': "sample [0 ..< length cs1] (num_dup cs1) (const_world r) = Inr (idxs', v')" and
    l': "dup_loop idxs' cs1 v' = Inr (cs, w')"
    unfolding w1 add_duplicates_def by (auto simp: and_then_eq_Inr)
  show ?thesis using l' dup_loop_const_world unfolding sample_const_world [OF s'] by blast
qed

text \<open>The run in which every raw draw is 3: products, then the first pass of the order loop.\<close>

lemma price_const_3:
  "round2 (fadd PRICE_MIN (fmul (fsub PRICE_MAX PRICE_MIN) (3 / 9007199254740992))) = 5"
  unfolding PRICE_MIN_def PRICE_MAX_def by code_simp

lemma gen_product_const_3:
  "\<exists>p. gen_product pid (const_world 3) = Inr (p, const_world 3)
        \<and> product_id p = pid \<and> price p = 5"
  by (simp add: gen_product_def randint_const choice_const fake_word_def next_fake_const
      uniform_const price_const_3 NUM_CATEGORIES_def Let_def)

lemma gen_products_const_3:
  "\<exists>ps. gen_products pids (const_world 3) = Inr (ps, const_world 3)
         \<and> map product_id ps = pids \<and> (\<forall>p \<in> set ps. price p = 5)"
proof (induction pids)
  case Nil
  then show ?case by simp
next
  case (Cons pid pids)
  obtain p where p: "gen_product pid (const_world 3) = Inr (p, const_world 3)"
    "product_id p = pid" "price p = 5" using gen_product_const_3 by blast
  obtain ps where ps: "gen_products pids (const_world 3) = Inr (ps, const_world 3)"
    "map product_id ps = pids" "\<forall>p \<in> set ps. price p = 5" using Cons by blast
  show ?case by (rule exI [of _ "p # ps"]) (simp add: p ps)
qed

lemma choices_const:
  assumes "length ws = length pop" and "0 < fadd (last (cum_weights ws)) 0" and "pop \<noteq> []"
  shows "choices pop ws (const_world r)
       = Inr (pop ! bisect (cum_weights ws)
                      (fmul (fst (random_random (const_world r)))
                         (fadd (last (cum_weights ws)) 0))
                      0 (length pop - 1),
              const_world r)"
proof -
  have "length (accumulate a xs) = length xs" for a xs
    by (induction xs arbitrary: a) simp_all
  then have l: "length (cum_weights ws) = length ws"
    by (simp add: cum_weights_def split: list.splits)
  then have "cum_weights ws \<noteq> []" using assms by auto
  then show ?thesis using assms l
    by (simp add: choices_def Let_def random_random_const)
qed

lemma draw_3: "fst (random_random (const_world 3)) = 3 / 2 ^ 53"
  by (simp add: random_random_const)

lemma items_index_3:
  "bisect (cum_weights [fl (6/10), fl (25/100), fl (1/10), fl (5/100)])
     (fmul (3 / 2 ^ 53)
        (fadd (last (cum_weights [fl (6/10), fl (25/100), fl (1/10), fl (5/100)])) 0))
     0 3 = 0"
  by code_simp

lemma ship_index_3:
  "bisect (cum_weights [fl (8/10), fl (15/100), fl (5/100)])
     (fmul (3 / 2 ^ 53)
        (fadd (last (cum_weights [fl (8/10), fl (15/100), fl (5/100)])) 0))
     0 2 = 0"
  by code_simp

lemma ship_draw_3: "fst (random_random (const_world 3)) < fl (8/10)"
  unfolding draw_3 by code_simp

lemma choices_items_const_3:
  "choices [1, 2, 3, 4 :: nat] [fl (6/10), fl (25/100), fl (1/10), fl (5/100)] (const_world 3)
     = Inr (1, const_world 3)"
proof -
  have l: "length [1, 2, 3, 4 :: nat] - 1 = 3" by simp
  have "choices [1, 2, 3, 4 :: nat] [fl (6/10), fl (25/100), fl (1/10), fl (5/100)]
          (const_world 3)
      = Inr ([1, 2, 3, 4 :: nat] !
               bisect (cum_weights [fl (6/10), fl (25/100), fl (1/10), fl (5/100)])
                 (fmul (fst (random_random (const_world 3)))
                    (fadd (last (cum_weights [fl (6/10), fl (25/100), fl (1/10), fl (5/100)])) 0))
                 0 (length [1, 2, 3, 4 :: nat] - 1),
             const_world 3)"
    by (rule choices_const) (use item_weights_total in simp_all)
  then show ?thesis unfolding l draw_3 items_index_3 by simp
qed

lemma choices_ship_const_3:
  "choices [Some a, Some b, None] [fl (8/10), fl (15/100), fl (5/100)] (const_world 3)
     = Inr (Some a, const_world 3)"
proof -
  have l: "length [Some a, Some b, None] - 1 = 2" by simp
  have "choices [Some a, Some b, None] [fl (8/10), fl (15/100), fl (5/100)] (const_world 3)
      = Inr ([Some a, Some b, None] !
               bisect (cum_weights [fl (8/10), fl (15/100), fl (5/100)])
                 (fmul (fst (random_random (const_world 3)))
                    (fadd (last (cum_weights [fl (8/10), fl (15/100), fl (5/100)])) 0))
                 0 (length [Some a, Some b, None] - 1),
             const_world 3)"
    by (rule choices_const) (use ship_weights_total in simp_all)
  then show ?thesis unfolding l draw_3 ship_index_3 by simp
qed

lemma rand_shipment_date_const_3:
  "rand_shipment_date (Some od) (const_world 3) = Inr (Some (od + 3), const_world 3)"
  using choices_ship_const_3 [of "3 :: int" "14 :: int"]
  by (simp add: rand_shipment_date_def randint_const)

lemma gen_shipment_const_3:
  "gen_shipment oid odate (const_world 3)
     = Inr ([\<lparr>shipment_id = None, s_order_id = oid, shipped_date = Some (odate + 3),
              delivery_date = Some (odate + 6), carrier = ''Local'',
              tracking_number = ''abc''\<rparr>], const_world 3)"
proof -
  have s: "snd (random_random (const_world 3)) = const_world 3"
    by (simp add: random_random_const)
  have c: "choice carrier_pool (const_world 3) = Inr (''Local'', const_world 3)"
    by (simp add: choice_const carrier_pool_def)
  have d: "rand_shipment_date (Some (odate + 3)) (const_world 3)
             = Inr (Some (odate + 6), const_world 3)"
    using rand_shipment_date_const_3 [of "odate + 3"] by simp
  show ?thesis
    unfolding gen_shipment_unfold if_P [OF ship_draw_3] s
    by (simp add: rand_shipment_date_const_3 d c fake_bothify_def next_fake_const)
qed

lemma line_total_const_3:
  "round2 (fmul (fmul 5 (of_int 4)) (fsub 1 (fl (1/10)))) = 18"
  "round2 (fadd 0 18) = 18"
  by code_simp+

lemma item_loop_const_3:
  assumes "products \<noteq> []" and "price (products ! (3 mod length products)) = 5"
  shows "item_loop (Suc 0) products oid ino 0 (const_world 3)
       = Inr (([\<lparr>i_order_id = oid, item_no = ino,
                  i_product_id = product_id (products ! (3 mod length products)),
                  quantity = 4, unit_price = 5, line_total = 18\<rparr>], fadd 0 18),
              const_world 3)"
proof -
  have d: "discount_pool ! (3 mod length discount_pool) = fl (1/10)"
    by (simp add: discount_pool_def)
  have q: "randint 1 5 (const_world 3) = Inr (4, const_world 3)"
    by (simp add: randint_const)
  have dn: "discount_pool \<noteq> []" by (simp add: discount_pool_def)
  show ?thesis
    unfolding item_loop.simps choice_const [OF assms(1)] choice_const [OF dn] and_then_Inr
      prod.case Let_def q d assms(2) line_total_const_3(1)
    by simp
qed

lemma gen_order_const_3:
  assumes "products \<noteq> []" and "price (products ! (3 mod length products)) = 5"
  shows "gen_order products st (const_world 3)
       = Inr (\<lparr>orders = orders st @
                  [\<lparr>order_id = order_id_seq st, o_customer_id = 4, order_date = 737794,
                    order_total = 18, promo_code = Some ''SUMMER20''\<rparr>],
               order_items = order_items st @
                  [\<lparr>i_order_id = order_id_seq st, item_no = 1,
                    i_product_id = product_id (products ! (3 mod length products)),
                    quantity = 4, unit_price = 5, line_total = 18\<rparr>],
               shipments = shipments st @
                  [\<lparr>shipment_id = None, s_order_id = order_id_seq st,
                    shipped_date = Some 737797, delivery_date = Some 737800,
                    carrier = ''Local'', tracking_number = ''abc''\<rparr>],
               order_id_seq = order_id_seq st + 1\<rparr>, const_world 3)"
proof -
  have c: "randint 1 NUM_CUSTOMERS (const_world 3) = Inr (4, const_world 3)"
    by (simp add: randint_const NUM_CUSTOMERS_def)
  have d: "rand_order_date (const_world 3) = Inr (737794, const_world 3)"
    using ymd2ord_values(2,3)
    by (simp add: rand_order_date_def rand_date_def randint_const Let_def)
  have p: "choice promo_pool (const_world 3) = Inr (Some ''SUMMER20'', const_world 3)"
    by (simp add: choice_const promo_pool_def)
  have s: "gen_shipment (order_id_seq st) 737794 (const_world 3)
      = Inr ([\<lparr>shipment_id = None, s_order_id = order_id_seq st,
                shipped_date = Some 737797, delivery_date = Some 737800,
                carrier = ''Local'', tracking_number = ''abc''\<rparr>], const_world 3)"
    using gen_shipment_const_3 [of "order_id_seq st" 737794] by simp
  have i: "item_loop 1 products (order_id_seq st) 1 0 (const_world 3)
       = Inr (([\<lparr>i_order_id = order_id_seq st, item_no = 1,
                  i_product_id = product_id (products ! (3 mod length products)),
                  quantity = 4, unit_price = 5, line_total = 18\<rparr>], fadd 0 18),
              const_world 3)"
    using item_loop_const_3 [OF assms] by simp
  show ?thesis
    unfolding gen_order_def c d p choices_items_const_3 and_then_Inr prod.case i Let_def
      line_total_const_3(2) s ..
qed

end
